theory Spec2Isabelle
  imports Complex_Main "HOL-Library.Multiset"
begin

text \<open>A timestamp is what \<open>Date.getTime()\<close> yields for a valid date: integer milliseconds.\<close>

type_synonym timestamp = int

section \<open>JavaScript numbers\<close>

text \<open>
  A JavaScript number is an IEEE 754 double: a finite value, one of the two infinities,
  or \<open>NaN\<close>. A finite double is given by its exact rational value; the two zeros are
  not told apart (they differ only as divisors, and the program divides by
  \<open>purgeCountPerRound\<close> alone, which is an integer here).
\<close>

datatype double = Fin rat | PInf | NInf | NaN

text \<open>
  \<open>floor_log2 x\<close> is the binary exponent of a positive rational: the \<open>e\<close> with
  \<open>2^e \<le> x < 2^(e+1)\<close>, found by halving or doubling.
\<close>

function log2_up :: "rat \<Rightarrow> nat" where
  "log2_up x = (if 2 \<le> x then Suc (log2_up (x / 2)) else 0)"
  by pat_completeness auto
termination
proof (relation "measure (\<lambda>x. nat \<lfloor>x\<rfloor>)")
  show "wf (measure (\<lambda>x::rat. nat \<lfloor>x\<rfloor>))" by simp
next
  fix x :: rat
  assume "2 \<le> x"
  then have "\<lfloor>x / 2\<rfloor> < \<lfloor>x\<rfloor>" by linarith
  moreover from \<open>2 \<le> x\<close> have "0 < \<lfloor>x\<rfloor>" by linarith
  ultimately show "(x / 2, x) \<in> measure (\<lambda>x. nat \<lfloor>x\<rfloor>)" by simp
qed

function log2_down :: "rat \<Rightarrow> nat" where
  "log2_down x = (if 0 < x \<and> x < 1 then Suc (log2_down (2 * x)) else 0)"
  by pat_completeness auto
termination
proof (relation "measure (\<lambda>x. nat \<lfloor>1 / x\<rfloor>)")
  show "wf (measure (\<lambda>x::rat. nat \<lfloor>1 / x\<rfloor>))" by simp
next
  fix x :: rat
  assume a: "0 < x \<and> x < 1"
  define y where "y = 1 / x"
  from a have y: "1 < y" by (simp add: y_def)
  have "\<lfloor>y / 2\<rfloor> < \<lfloor>y\<rfloor>"
  proof (cases "y < 2")
    case True
    with y have "\<lfloor>y / 2\<rfloor> = 0" "\<lfloor>y\<rfloor> = 1" by linarith+
    then show ?thesis by simp
  next
    case False
    then show ?thesis by linarith
  qed
  moreover from y have "0 < \<lfloor>y\<rfloor>" by linarith
  moreover have "1 / (2 * x) = y / 2" by (simp add: y_def)
  ultimately show "(2 * x, x) \<in> measure (\<lambda>x. nat \<lfloor>1 / x\<rfloor>)"
    by (simp add: y_def mult.commute)
qed

declare log2_up.simps [simp del] log2_down.simps [simp del]

definition floor_log2 :: "rat \<Rightarrow> int" where
  "floor_log2 x = (if 1 \<le> x then int (log2_up x) else - int (log2_down x))"

text \<open>Rounding to the nearest integer, a tie going to the even one.\<close>

definition round_half_even :: "rat \<Rightarrow> int" where
  "round_half_even y =
     (let f = \<lfloor>y\<rfloor>; d = y - of_int f
      in if d < 1 / 2 then f else if 1 / 2 < d then f + 1 else if even f then f else f + 1)"

text \<open>
  The exponent of the last mantissa bit of the doubles around a positive \<open>a\<close>: 52 below
  the binary exponent, and \<open>-1074\<close> throughout the subnormal range.
\<close>

definition ulp_exp :: "rat \<Rightarrow> int" where
  "ulp_exp a = max (floor_log2 a) (- 1022) - 52"

definition round_pos :: "rat \<Rightarrow> rat" where
  "round_pos a = of_int (round_half_even (a / 2 powi ulp_exp a)) * 2 powi ulp_exp a"

text \<open>
  Round to nearest, ties to even, of an exact result: what every arithmetic operation
  on doubles returns. A result that rounds to \<open>2^1024\<close> or more overflows to infinity.
\<close>

definition rnd :: "rat \<Rightarrow> double" where
  "rnd x =
     (if x = 0 then Fin 0
      else if 2 ^ 1024 \<le> round_pos \<bar>x\<bar> then (if 0 < x then PInf else NInf)
      else Fin (if 0 < x then round_pos \<bar>x\<bar> else - round_pos \<bar>x\<bar>))"

text \<open>The operators \<open>+\<close>, \<open>*\<close> and \<open>/\<close> on numbers.\<close>

fun dadd :: "double \<Rightarrow> double \<Rightarrow> double" where
  "dadd NaN _ = NaN"
| "dadd _ NaN = NaN"
| "dadd (Fin x) (Fin y) = rnd (x + y)"
| "dadd (Fin _) PInf = PInf"
| "dadd (Fin _) NInf = NInf"
| "dadd PInf (Fin _) = PInf"
| "dadd NInf (Fin _) = NInf"
| "dadd PInf PInf = PInf"
| "dadd NInf NInf = NInf"
| "dadd PInf NInf = NaN"
| "dadd NInf PInf = NaN"

fun dmul :: "double \<Rightarrow> double \<Rightarrow> double" where
  "dmul NaN _ = NaN"
| "dmul _ NaN = NaN"
| "dmul (Fin x) (Fin y) = rnd (x * y)"
| "dmul (Fin x) PInf = (if x = 0 then NaN else if 0 < x then PInf else NInf)"
| "dmul (Fin x) NInf = (if x = 0 then NaN else if 0 < x then NInf else PInf)"
| "dmul PInf (Fin y) = (if y = 0 then NaN else if 0 < y then PInf else NInf)"
| "dmul NInf (Fin y) = (if y = 0 then NaN else if 0 < y then NInf else PInf)"
| "dmul PInf PInf = PInf"
| "dmul NInf NInf = PInf"
| "dmul PInf NInf = NInf"
| "dmul NInf PInf = NInf"

fun ddiv :: "double \<Rightarrow> double \<Rightarrow> double" where
  "ddiv NaN _ = NaN"
| "ddiv _ NaN = NaN"
| "ddiv (Fin x) (Fin y) =
     (if y = 0 then (if x = 0 then NaN else if 0 < x then PInf else NInf) else rnd (x / y))"
| "ddiv (Fin _) PInf = Fin 0"
| "ddiv (Fin _) NInf = Fin 0"
| "ddiv PInf (Fin y) = (if 0 \<le> y then PInf else NInf)"
| "ddiv NInf (Fin y) = (if 0 \<le> y then NInf else PInf)"
| "ddiv PInf PInf = NaN"
| "ddiv NInf NInf = NaN"
| "ddiv PInf NInf = NaN"
| "ddiv NInf PInf = NaN"


text \<open>The number an integer denotes (the integer itself up to \<open>2^53\<close> in size).\<close>

definition number :: "int \<Rightarrow> double" where
  "number n = rnd (of_int n)"

text \<open>
  A \<open>Date\<close> holds a time value: an integer number of milliseconds of size at most
  \<open>8.64e15\<close>, or \<open>NaN\<close> (an invalid date). \<open>new Date(v)\<close> clips a number to that
  range and drops its fraction.
\<close>

datatype js_date = ValidDate timestamp | InvalidDate

definition new_Date :: "double \<Rightarrow> js_date" where
  "new_Date v =
     (case v of
        Fin x \<Rightarrow>
          (if \<bar>x\<bar> \<le> 8640000000000000
           then ValidDate (if 0 \<le> x then \<lfloor>x\<rfloor> else \<lceil>x\<rceil>) else InvalidDate)
      | _ \<Rightarrow> InvalidDate)"

section \<open>Data model\<close>

text \<open>
  Message ids are Discord snowflakes (strings compared with \<open>===\<close>). A valid
  \<open>Date\<close> is compared (\<open><\<close>) and subtracted through its time value, so the
  \<open>createdAt\<close> of a message and the due date of a queue entry are timestamps.
\<close>

type_synonym snowflake = string

record channel =
  chan_id :: snowflake
  chan_name :: string
  chan_type :: string

record discord_message =
  msg_id :: snowflake
  msg_channel :: channel
  createdAt :: timestamp

text \<open>The object literal \<open>{ dueDate: due, message }\<close> pushed by \<open>addMessage\<close>.\<close>

record tuple =
  dueDate :: timestamp
  message :: discord_message

record stats =
  itemsDeleted :: nat
  itemsDeletedCalled :: nat
  errors :: nat

text \<open>
  The part of the \<open>purge\<close> configuration object that class \<open>Purge\<close> reads.
  \<open>purgeTimerInterval\<close> is a number that the timer callback rescales by a quotient.
  \<open>purgeCountPerRound\<close>, the bound of the batch loop, is an integer.
\<close>

record purge_config =
  purgeTimerInterval :: double
  purgeCountPerRound :: int

record purge =
  config :: purge_config
  messageQueue :: "tuple list"
  sas :: "tuple list"
  stats :: stats

definition tuple_id :: "tuple \<Rightarrow> snowflake" where
  "tuple_id t = msg_id (message t)"

definition ids :: "tuple list \<Rightarrow> snowflake list" where
  "ids ts = map tuple_id ts"

section \<open>Class Purge\<close>

definition constructor :: "purge_config \<Rightarrow> purge" where
  "constructor cfg =
     \<lparr>config = cfg, messageQueue = [], sas = [],
      stats = \<lparr>itemsDeleted = 0, itemsDeletedCalled = 0, errors = 0\<rparr>\<rparr>"

text \<open>
  \<open>addMessage(message, dueDate)\<close>: push a new tuple unless \<open>findIndex\<close> finds the id.
\<close>

definition addMessage :: "purge \<Rightarrow> discord_message \<Rightarrow> timestamp \<Rightarrow> purge" where
  "addMessage p m due =
     (if find (\<lambda>t. msg_id (message t) = msg_id m) (messageQueue p) = None
      then p\<lparr>messageQueue := messageQueue p @ [\<lparr>dueDate = due, message = m\<rparr>]\<rparr>
      else p)"

text \<open>
  \<open>Array.prototype.splice(index, 1)\<close> at the index \<open>findIndex\<close> returned: the first
  element whose id matches is removed, nothing when there is none (\<open>index === -1\<close>).
\<close>

fun splice_first :: "snowflake \<Rightarrow> tuple list \<Rightarrow> tuple list" where
  "splice_first i [] = []"
| "splice_first i (t # ts) = (if tuple_id t = i then ts else t # splice_first i ts)"

definition removeFromStores :: "purge \<Rightarrow> tuple \<Rightarrow> purge" where
  "removeFromStores p t =
     p\<lparr>messageQueue := splice_first (tuple_id t) (messageQueue p),
       sas := splice_first (tuple_id t) (sas p)\<rparr>"

text \<open>
  \<open>getOldestMessageInQueue\<close> sorts \<open>this.messageQueue\<close> in place with the comparator
  \<open>left.dueDate - right.dueDate\<close> and reads index 0. The sort is modelled as the stable
  insertion sort \<open>sort_key\<close> (ECMAScript 2019 requires stability; among equal due
  dates an older engine may order differently). The function returns the message or
  \<open>null\<close> (here \<open>None\<close>), and the state with the reordered queue.
\<close>

definition getOldestMessageInQueue :: "purge \<Rightarrow> discord_message option \<times> purge" where
  "getOldestMessageInQueue p =
     (let q = sort_key dueDate (messageQueue p)
      in (case q of [] \<Rightarrow> None | t # _ \<Rightarrow> Some (message t), p\<lparr>messageQueue := q\<rparr>))"

text \<open>Reading \<open>xs[i]\<close>: \<open>undefined\<close> (here \<open>None\<close>) beyond the end.\<close>

definition at_index :: "'a list \<Rightarrow> nat \<Rightarrow> 'a option" where
  "at_index xs i = (if i < length xs then Some (xs ! i) else None)"

text \<open>
  The expression evaluated afresh in every round of the batch loop: the queue without
  the ids found in \<open>this.sas\<close>, restricted to due dates before \<open>now\<close>, sorted by due
  date. Both \<open>filter\<close> calls build new arrays, so the queue itself is not reordered.
\<close>

definition candidates :: "timestamp \<Rightarrow> purge \<Rightarrow> tuple list" where
  "candidates now p =
     sort_key dueDate
       (filter (\<lambda>t. dueDate t < now)
         (filter (\<lambda>t. find (\<lambda>s. msg_id (message s) = msg_id (message t)) (sas p) = None)
           (messageQueue p)))"

text \<open>
  The \<open>for\<close> loop of \<open>purgeTimerWatch\<close>, from counter \<open>i\<close> on. A round that finds a
  tuple at index \<open>i\<close> calls \<open>tuple.message.delete()\<close> (the call is recorded in the
  second component, in call order), counts it and pushes the tuple onto \<open>this.sas\<close>.
  The promise callbacks run in later turns, never inside the loop.
\<close>

function purge_loop :: "timestamp \<Rightarrow> nat \<Rightarrow> purge \<Rightarrow> tuple list \<Rightarrow> purge \<times> tuple list" where
  "purge_loop now i p issued =
     (if int i < purgeCountPerRound (config p)
      then (case at_index (candidates now p) i of
              None \<Rightarrow> purge_loop now (Suc i) p issued
            | Some t \<Rightarrow>
                purge_loop now (Suc i)
                  (p\<lparr>stats := (stats p)\<lparr>itemsDeletedCalled := itemsDeletedCalled (stats p) + 1\<rparr>,
                     sas := sas p @ [t]\<rparr>)
                  (issued @ [t]))
      else (p, issued))"
  by pat_completeness auto
termination
  by (relation "measure (\<lambda>(now, i, p, issued). nat (purgeCountPerRound (config p) - int i))") auto

declare purge_loop.simps [simp del]

text \<open>
  The value of \<open>interval + interval * (this.sas.length / purgeCountPerRound)\<close>, each
  operation rounded as JavaScript does.
\<close>

definition backlog_interval :: "double \<Rightarrow> nat \<Rightarrow> int \<Rightarrow> double" where
  "backlog_interval old k b = dadd old (dmul old (ddiv (number (int k)) (number b)))"

text \<open>
  One run of the timer callback \<open>purgeTimerWatch\<close> at time \<open>now\<close>. The result is the
  new state, the tuples whose \<open>delete()\<close> was called, and the delay handed to
  \<open>continue\<close>. With entries in \<open>this.sas\<close> the interval is enlarged and nothing is
  selected.
\<close>

definition purgeTimerWatch :: "timestamp \<Rightarrow> purge \<Rightarrow> purge \<times> tuple list \<times> double" where
  "purgeTimerWatch now p =
     (if length (sas p) > 0
      then (p\<lparr>config := (config p)\<lparr>purgeTimerInterval :=
                 backlog_interval (purgeTimerInterval (config p)) (length (sas p))
                   (purgeCountPerRound (config p))\<rparr>\<rparr>,
            [],
            ddiv (number (int (length (sas p)))) (number (purgeCountPerRound (config p))))
      else (case purge_loop now 0 p [] of
              (p', issued) \<Rightarrow> (p', issued, purgeTimerInterval (config p'))))"

text \<open>The two callbacks given to \<open>then\<close> for the promise of \<open>tuple.message.delete()\<close>.\<close>

definition on_deleted :: "purge \<Rightarrow> tuple \<Rightarrow> purge" where
  "on_deleted p t =
     removeFromStores (p\<lparr>stats := (stats p)\<lparr>itemsDeleted := itemsDeleted (stats p) + 1\<rparr>\<rparr>) t"

definition on_error :: "purge \<Rightarrow> tuple \<Rightarrow> purge" where
  "on_error p t =
     removeFromStores (p\<lparr>stats := (stats p)\<lparr>errors := errors (stats p) + 1\<rparr>\<rparr>) t"

section \<open>Class Watcher\<close>

text \<open>
  What a channel lookup can yield in JavaScript: a channel object, \<open>null\<close> or
  \<open>undefined\<close>. The two lookups belong to the Discord client library and the
  language: \<open>Map.prototype.get\<close> yields \<open>undefined\<close> for a missing key, and
  \<open>Collection.find(prop, value)\<close> of discord.js 11 yields \<open>null\<close> when no item
  matches. The channel collection is modelled as the list of its values.
\<close>

datatype chan_ref = JSNull | JSUndefined | Chan channel

definition collection_get :: "channel list \<Rightarrow> snowflake \<Rightarrow> chan_ref" where
  "collection_get cs k =
     (case find (\<lambda>c. chan_id c = k) cs of None \<Rightarrow> JSUndefined | Some c \<Rightarrow> Chan c)"

definition collection_find_name :: "channel list \<Rightarrow> string \<Rightarrow> chan_ref" where
  "collection_find_name cs n =
     (case find (\<lambda>c. chan_name c = n) cs of None \<Rightarrow> JSNull | Some c \<Rightarrow> Chan c)"

definition startsWith_hash :: "string \<Rightarrow> bool" where
  "startsWith_hash m = (case m of [] \<Rightarrow> False | c # _ \<Rightarrow> c = CHR ''#'')"

text \<open>The arrow function mapped over \<open>Object.values(this.mappings)\<close> in \<open>start\<close>.\<close>

definition lookup_channel :: "channel list \<Rightarrow> string \<Rightarrow> chan_ref" where
  "lookup_channel cs m =
     (if startsWith_hash m
      then collection_find_name (filter (\<lambda>c. chan_type c = ''text'') cs) (drop 1 m)
      else collection_get cs m)"

text \<open>
  \<open>messageLifeTime\<close>: each field may be absent. \<open>lt.days ? lt.days : 0\<close> takes the
  field when it is truthy, that is present and neither 0 nor \<open>NaN\<close>.
\<close>

record lifetime =
  days :: "double option"
  hours :: "double option"
  minutes :: "double option"
  seconds :: "double option"

definition truthy_or_zero :: "double option \<Rightarrow> double" where
  "truthy_or_zero f =
     (case f of None \<Rightarrow> Fin 0 | Some v \<Rightarrow> (if v = Fin 0 \<or> v = NaN then Fin 0 else v))"

text \<open>
  \<open>getLifeTimeOffset(lt = { })\<close>: an absent argument is the empty object, all of whose
  fields are absent. The products associate to the left, as in the source.
\<close>

definition getLifeTimeOffset :: "lifetime option \<Rightarrow> double" where
  "getLifeTimeOffset arg =
     (let lt = (case arg of
                  None \<Rightarrow> \<lparr>days = None, hours = None, minutes = None, seconds = None\<rparr>
                | Some l \<Rightarrow> l);
          s0 = Fin 0;
          s1 = dadd s0 (dmul (dmul (dmul (truthy_or_zero (days lt)) (Fin 24)) (Fin 60)) (Fin 60));
          s2 = dadd s1 (dmul (dmul (truthy_or_zero (hours lt)) (Fin 60)) (Fin 60));
          s3 = dadd s2 (dmul (truthy_or_zero (minutes lt)) (Fin 60));
          s4 = dadd s3 (truthy_or_zero (seconds lt))
      in dmul s4 (Fin 1000))"

record watcher =
  chans :: "chan_ref list"
  lifeTimeOffset :: double

text \<open>
  \<open>start\<close>: map the lookup over the mapping's values, keep what is \<open>!== null\<close>
  (strict inequality: \<open>undefined !== null\<close> is true), compute the offset once.
\<close>

definition start :: "string list \<Rightarrow> channel list \<Rightarrow> lifetime option \<Rightarrow> watcher" where
  "start mappings cs lt =
     \<lparr>chans = filter (\<lambda>c. c \<noteq> JSNull) (map (lookup_channel cs) mappings),
      lifeTimeOffset = getLifeTimeOffset lt\<rparr>"

record fetch_params =
  before :: "snowflake option"
  limit :: nat

definition fetchParams :: "purge \<Rightarrow> fetch_params \<times> purge" where
  "fetchParams p =
     (case getOldestMessageInQueue p of
        (None, p') \<Rightarrow> (\<lparr>before = None, limit = 50\<rparr>, p')
      | (Some oldest, p') \<Rightarrow> (\<lparr>before = Some (msg_id oldest), limit = 50\<rparr>, p'))"

text \<open>
  \<open>watcherTicker\<close>: \<open>forEach\<close> over \<open>this.chans\<close>. Reading \<open>chan.fetchMessages\<close> on
  \<open>null\<close> or \<open>undefined\<close> throws a \<open>TypeError\<close>, which ends the \<open>forEach\<close>. The
  result lists the fetch requests made, the error if one was thrown, and the scheduler
  state (the cursor computation sorts the queue).
\<close>

datatype js_error = TypeError

fun watcherTicker ::
  "chan_ref list \<Rightarrow> purge \<Rightarrow> (channel \<times> fetch_params) list \<Rightarrow>
     (channel \<times> fetch_params) list \<times> js_error option \<times> purge" where
  "watcherTicker [] p reqs = (reqs, None, p)"
| "watcherTicker (Chan c # cs) p reqs =
     (case fetchParams p of (params, p') \<Rightarrow> watcherTicker cs p' (reqs @ [(c, params)]))"
| "watcherTicker (_ # cs) p reqs = (reqs, Some TypeError, p)"

text \<open>
  The date built in \<open>sendToPurge\<close>:
  \<open>new Date(message.createdAt.getTime() + this.lifeTimeOffset)\<close>.
\<close>

definition dueDate_for :: "watcher \<Rightarrow> discord_message \<Rightarrow> js_date" where
  "dueDate_for w m = new_Date (dadd (number (createdAt m)) (lifeTimeOffset w))"

text \<open>
  \<open>sendToPurge\<close> hands the message and that date to \<open>addMessage\<close>. When the date is
  invalid the code queues the message with it all the same. The comparator of both sorts
  then returns \<open>NaN\<close> against that entry, and the order \<open>Array.prototype.sort\<close>
  produces for such a comparator is left to the implementation; the scheduler is
  therefore modelled for valid due dates only, and the result here is \<open>None\<close>.
\<close>

definition sendToPurge :: "watcher \<Rightarrow> purge \<Rightarrow> discord_message \<Rightarrow> purge option" where
  "sendToPurge w p m =
     (case dueDate_for w m of
        ValidDate due \<Rightarrow> Some (addMessage p m due)
      | InvalidDate \<Rightarrow> None)"

text \<open>
  \<open>onDiscordMessage\<close>: \<open>this.chans.find(c => c === message.channel) != null\<close>.
\<close>

definition onDiscordMessage :: "watcher \<Rightarrow> purge \<Rightarrow> discord_message \<Rightarrow> purge option" where
  "onDiscordMessage w p m =
     (if find (\<lambda>c. c = Chan (msg_channel m)) (chans w) \<noteq> None
      then sendToPurge w p m else Some p)"

section \<open>The scheduler in its environment\<close>

text \<open>
  The scheduler runs in turns of the event loop. Between turns the environment holds
  the promises of the \<open>delete()\<close> calls that have not settled yet; a promise settles at
  most once, calling exactly one of its two callbacks. \<open>deleteCalls\<close> is the history of
  all \<open>delete()\<close> calls, in call order.
\<close>

record system =
  purger :: purge
  promises :: "tuple list"
  deleteCalls :: "tuple list"

datatype event =
    Tick timestamp
  | Submit discord_message timestamp
  | Oldest
  | Deleted tuple
  | Failed tuple

definition boot :: "purge_config \<Rightarrow> system" where
  "boot cfg = \<lparr>purger = constructor cfg, promises = [], deleteCalls = []\<rparr>"

text \<open>
  One turn. \<open>None\<close>: the turn cannot happen in this state, because the promise is not
  pending.
\<close>

fun step :: "system \<Rightarrow> event \<Rightarrow> system option" where
  "step s (Tick now) =
     (case purgeTimerWatch now (purger s) of
        (p', issued, delay) \<Rightarrow>
          Some \<lparr>purger = p', promises = promises s @ issued,
                deleteCalls = deleteCalls s @ issued\<rparr>)"
| "step s (Submit m due) = Some (s\<lparr>purger := addMessage (purger s) m due\<rparr>)"
| "step s Oldest = Some (s\<lparr>purger := snd (getOldestMessageInQueue (purger s))\<rparr>)"
| "step s (Deleted t) =
     (if t \<in> set (promises s)
      then Some (s\<lparr>purger := on_deleted (purger s) t, promises := remove1 t (promises s)\<rparr>)
      else None)"
| "step s (Failed t) =
     (if t \<in> set (promises s)
      then Some (s\<lparr>purger := on_error (purger s) t, promises := remove1 t (promises s)\<rparr>)
      else None)"

fun run :: "system \<Rightarrow> event list \<Rightarrow> system option" where
  "run s [] = Some s"
| "run s (e # es) = (case step s e of None \<Rightarrow> None | Some s' \<Rightarrow> run s' es)"

section \<open>Auxiliary definitions for the properties\<close>

text \<open>
  The facts that tie the scheduler's state to its environment in every state that can
  arise: the pending promises are the tuples in \<open>this.sas\<close>, ids are unique in both
  arrays, every tuple in \<open>this.sas\<close> is still queued, the counters add up and count
  the \<open>delete()\<close> calls, and the set never holds more tuples than the loop bound.
\<close>

definition consistent :: "system \<Rightarrow> bool" where
  "consistent s \<longleftrightarrow>
     promises s = sas (purger s) \<and>
     distinct (ids (sas (purger s))) \<and>
     distinct (ids (messageQueue (purger s))) \<and>
     set (sas (purger s)) \<subseteq> set (messageQueue (purger s)) \<and>
     itemsDeletedCalled (stats (purger s)) =
       itemsDeleted (stats (purger s)) + errors (stats (purger s)) + length (sas (purger s)) \<and>
     length (deleteCalls s) = itemsDeletedCalled (stats (purger s)) \<and>
     int (length (sas (purger s))) \<le> max 0 (purgeCountPerRound (config (purger s)))"


text \<open>A lifetime configuration whose fields, where set, are integers.\<close>

definition integer_lifetime ::
  "int option \<Rightarrow> int option \<Rightarrow> int option \<Rightarrow> int option \<Rightarrow> lifetime" where
  "integer_lifetime d h mi s =
     \<lparr>days = map_option (\<lambda>n. Fin (of_int n)) d, hours = map_option (\<lambda>n. Fin (of_int n)) h,
      minutes = map_option (\<lambda>n. Fin (of_int n)) mi, seconds = map_option (\<lambda>n. Fin (of_int n)) s\<rparr>"

text \<open>
  The offset in milliseconds as the documentation of the configuration describes it:
  days, hours, minutes and seconds added up, a field that is not set counting as 0.
\<close>

definition lifetime_field :: "int option \<Rightarrow> int" where
  "lifetime_field f = (case f of None \<Rightarrow> 0 | Some v \<Rightarrow> v)"

definition offset_ms :: "int option \<Rightarrow> int option \<Rightarrow> int option \<Rightarrow> int option \<Rightarrow> int" where
  "offset_ms d h mi s =
     (lifetime_field d * 86400 + lifetime_field h * 3600 + lifetime_field mi * 60 +
      lifetime_field s) * 1000"

text \<open>Concrete data for the worked examples.\<close>

definition example_channel :: channel where
  "example_channel = \<lparr>chan_id = ''41'', chan_name = ''general'', chan_type = ''text''\<rparr>"

definition example_message :: "snowflake \<Rightarrow> timestamp \<Rightarrow> discord_message" where
  "example_message i c = \<lparr>msg_id = i, msg_channel = example_channel, createdAt = c\<rparr>"

definition example_config :: purge_config where
  "example_config = \<lparr>purgeTimerInterval = Fin 10000, purgeCountPerRound = 2\<rparr>"


text \<open>Which turns submit a message with a given id, and which settle a delete of it.\<close>

fun submits_id :: "snowflake \<Rightarrow> event \<Rightarrow> bool" where
  "submits_id i (Submit m due) = (msg_id m = i)"
| "submits_id i _ = False"

fun settles_id :: "snowflake \<Rightarrow> event \<Rightarrow> bool" where
  "settles_id i (Deleted t) = (msg_id (message t) = i)"
| "settles_id i (Failed t) = (msg_id (message t) = i)"
| "settles_id i _ = False"

text \<open>
  A run used in the worked examples: five messages are submitted, a timer turn at time
  10 calls \<open>delete()\<close> for two of them, and the first delete succeeds. The state it
  ends in, and that state after one more timer turn.
\<close>

definition example_events :: "event list" where
  "example_events =
     [Submit (example_message ''1'' 1) 1, Submit (example_message ''2'' 2) 2,
      Submit (example_message ''3'' 3) 3, Submit (example_message ''4'' 4) 4,
      Submit (example_message ''5'' 5) 5, Tick 10,
      Deleted \<lparr>dueDate = 1, message = example_message ''1'' 1\<rparr>]"

definition example_state :: system where
  "example_state =
     \<lparr>purger =
        \<lparr>config = example_config,
         messageQueue =
           [\<lparr>dueDate = 2, message = example_message ''2'' 2\<rparr>,
            \<lparr>dueDate = 3, message = example_message ''3'' 3\<rparr>,
            \<lparr>dueDate = 4, message = example_message ''4'' 4\<rparr>,
            \<lparr>dueDate = 5, message = example_message ''5'' 5\<rparr>],
         sas = [\<lparr>dueDate = 3, message = example_message ''3'' 3\<rparr>],
         stats = \<lparr>itemsDeleted = 1, itemsDeletedCalled = 2, errors = 0\<rparr>\<rparr>,
      promises = [\<lparr>dueDate = 3, message = example_message ''3'' 3\<rparr>],
      deleteCalls = [\<lparr>dueDate = 1, message = example_message ''1'' 1\<rparr>,
                     \<lparr>dueDate = 3, message = example_message ''3'' 3\<rparr>]\<rparr>"

definition example_backlog_state :: system where
  "example_backlog_state =
     example_state\<lparr>purger := (purger example_state)\<lparr>config :=
        \<lparr>purgeTimerInterval = Fin 15000, purgeCountPerRound = 2\<rparr>\<rparr>\<rparr>"

section \<open>Facts about rounding\<close>

lemma log2_up_spec: "1 \<le> x \<Longrightarrow> 2 ^ log2_up x \<le> x \<and> x < 2 ^ Suc (log2_up x)"
proof (induction x rule: log2_up.induct)
  case (1 x)
  show ?case
  proof (cases "2 \<le> x")
    case True
    then have "1 \<le> x / 2" by simp
    from "1.IH"[OF True this] True show ?thesis
      by (simp add: log2_up.simps[of x] field_simps)
  next
    case False
    with "1.prems" show ?thesis by (simp add: log2_up.simps[of x])
  qed
qed

lemma log2_down_spec:
  "0 < x \<Longrightarrow> x < 1 \<Longrightarrow> 1 \<le> x * 2 ^ log2_down x \<and> x * 2 ^ log2_down x < 2"
proof (induction x rule: log2_down.induct)
  case (1 x)
  from "1.prems" have c: "0 < x \<and> x < 1" by simp
  show ?case
  proof (cases "2 * x < 1")
    case True
    with c have "0 < 2 * x" by simp
    from "1.IH"[OF c this True] c show ?thesis
      by (simp add: log2_down.simps[of x] mult_ac)
  next
    case False
    then have "log2_down (2 * x) = 0" by (simp add: log2_down.simps[of "2 * x"])
    with c False show ?thesis by (simp add: log2_down.simps[of x])
  qed
qed

lemma floor_log2_spec:
  assumes "0 < x"
  shows "2 powi floor_log2 x \<le> x \<and> x < 2 powi (floor_log2 x + 1)"
proof (cases "1 \<le> x")
  case True
  from log2_up_spec[OF True] True show ?thesis
    by (simp add: floor_log2_def power_int_add)
next
  case False
  then have lt: "x < 1" by simp
  let ?n = "log2_down x"
  from log2_down_spec[OF assms lt] have a: "1 \<le> x * 2 ^ ?n" and b: "x * 2 ^ ?n < 2" by simp_all
  have p: "(2::rat) powi (- int ?n) = 1 / 2 ^ ?n" by (simp add: power_int_minus_divide)
  have "2 powi (- int ?n) \<le> x" using a by (simp add: p field_simps)
  moreover have "x < 2 powi (- int ?n + 1)"
  proof -
    have e: "(2::rat) powi (1 - int ?n) = 2 / 2 ^ ?n" by (simp add: power_int_diff)
    from b have "x < 2 / 2 ^ ?n" by (simp add: field_simps)
    then show ?thesis by (simp only: e[symmetric]) simp
  qed
  ultimately show ?thesis using False by (simp add: floor_log2_def)
qed

lemma floor_log2_unique:
  assumes "0 < x" and "2 powi e \<le> x" and "x < 2 powi (e + 1)"
  shows "floor_log2 x = e"
proof -
  let ?f = "floor_log2 x"
  from floor_log2_spec[OF assms(1)] have f: "2 powi ?f \<le> x" "x < 2 powi (?f + 1)" by simp_all
  have "\<not> e < ?f"
  proof
    assume "e < ?f"
    then have "(2::rat) powi (e + 1) \<le> 2 powi ?f" by (intro power_int_increasing) simp_all
    with f(1) assms(3) show False by simp
  qed
  moreover have "\<not> ?f < e"
  proof
    assume "?f < e"
    then have "(2::rat) powi (?f + 1) \<le> 2 powi e" by (intro power_int_increasing) simp_all
    with f(2) assms(2) show False by simp
  qed
  ultimately show ?thesis by simp
qed


lemma round_half_even_int [simp]: "round_half_even (of_int n) = n"
  by (simp add: round_half_even_def)












lemma ulp_exp_grid:
  assumes m: "1 \<le> m" "m < 2 ^ 53" and q: "- 1074 \<le> q" and n: "q = - 1074 \<or> 2 ^ 52 \<le> m"
  shows "ulp_exp (of_int m * 2 powi q) = q"
proof -
  let ?r = "of_int m * 2 powi q :: rat"
  from m(1) have r: "0 < ?r" by simp
  have up: "?r < 2 powi (q + 53)"
  proof -
    from m(2) have "(of_int m :: rat) < of_int (2 ^ 53)" by (simp only: of_int_less_iff)
    then have "?r < 2 ^ 53 * 2 powi q" by (simp add: mult_strict_right_mono)
    then show ?thesis by (simp add: power_int_add mult.commute)
  qed
  show ?thesis
  proof (cases "2 ^ 52 \<le> m")
    case True
    then have "(of_int (2 ^ 52) :: rat) \<le> of_int m" by (simp only: of_int_le_iff)
    then have "2 ^ 52 * 2 powi q \<le> ?r" by (simp add: mult_right_mono)
    then have lo: "2 powi (q + 52) \<le> ?r" by (simp add: power_int_add mult.commute)
    from up have "?r < 2 powi (q + 52 + 1)" by (simp add: add.assoc)
    from floor_log2_unique[OF r lo this] q show ?thesis by (simp add: ulp_exp_def)
  next
    case False
    with n have q': "q = - 1074" by simp
    from False have "m \<le> 2 ^ 52" by simp
    then have "(of_int m :: rat) \<le> of_int (2 ^ 52)" by (simp only: of_int_le_iff)
    then have "?r \<le> 2 ^ 52 * 2 powi q" by (simp add: mult_right_mono)
    also have "\<dots> = 2 powi (- 1022)" by (simp add: q' power_int_add[symmetric] del: power_int_add_numeral power_int_add_numeral2)
    finally have le: "?r \<le> 2 powi (- 1022)" .
    have "floor_log2 ?r \<le> - 1022"
    proof (rule ccontr)
      assume "\<not> ?thesis"
      then have "- 1022 + 1 \<le> floor_log2 ?r" by simp
      then have "(2::rat) powi (- 1022 + 1) \<le> 2 powi floor_log2 ?r"
        by (intro power_int_increasing) simp_all
      with floor_log2_spec[OF r] le have "(2::rat) powi (- 1022 + 1) \<le> 2 powi (- 1022)" by simp
      moreover have "(2::rat) powi (- 1022) < 2 powi (- 1022 + 1)"
        by (rule power_int_strict_increasing) simp_all
      ultimately show False by simp
    qed
    then show ?thesis by (simp add: ulp_exp_def q' max_def)
  qed
qed


lemma round_pos_exact:
  assumes "0 < r" and "r / 2 powi ulp_exp r = of_int m"
  shows "round_pos r = r"
proof -
  have "round_pos r = of_int m * 2 powi ulp_exp r"
    by (simp add: round_pos_def assms(2))
  also have "\<dots> = r" by (simp add: assms(2)[symmetric])
  finally show ?thesis .
qed

lemma round_pos_grid:
  assumes m: "1 \<le> m" "m < 2 ^ 53" and q: "- 1074 \<le> q" and n: "q = - 1074 \<or> 2 ^ 52 \<le> m"
  shows "round_pos (of_int m * 2 powi q) = of_int m * 2 powi q"
proof -
  from m(1) have r: "0 < (of_int m * 2 powi q :: rat)" by simp
  from ulp_exp_grid[OF assms] have "(of_int m * 2 powi q :: rat) / 2 powi ulp_exp (of_int m * 2 powi q) = of_int m"
    by simp
  with r show ?thesis by (rule round_pos_exact)
qed


lemma round_pos_int:
  assumes "1 \<le> n" and "n \<le> 2 ^ 53"
  shows "round_pos (of_int n) = of_int n"
proof -
  let ?r = "of_int n :: rat"
  from assms(1) have r: "0 < ?r" by simp
  have top: "round_pos (2 ^ 53) = 2 ^ 53"
    using round_pos_grid[of "2 ^ 52" 1] by simp
  show ?thesis
  proof (cases "n = 2 ^ 53")
    case True
    with top show ?thesis by simp
  next
    case False
    with assms have "n < 2 ^ 53" by simp
    then have "?r < of_int (2 ^ 53)" by (simp only: of_int_less_iff)
    then have lt: "?r < 2 ^ 53" by simp
    from assms(1) have ge: "1 \<le> ?r" by simp
    have "0 \<le> floor_log2 ?r" using ge by (simp add: floor_log2_def)
    moreover have "floor_log2 ?r < 53"
    proof (rule ccontr)
      assume "\<not> ?thesis"
      then have "(2::rat) powi 53 \<le> 2 powi floor_log2 ?r" by (intro power_int_increasing) simp_all
      with floor_log2_spec[OF r] lt show False by simp
    qed
    ultimately have q: "ulp_exp ?r \<le> 0" "- 52 \<le> ulp_exp ?r" by (simp_all add: ulp_exp_def)
    define k where "k = nat (- ulp_exp ?r)"
    from q have u: "ulp_exp ?r = - int k" by (simp add: k_def)
    have "?r / 2 powi ulp_exp ?r = of_int (n * 2 ^ k)"
      by (simp add: u power_int_minus_divide)
    with r show ?thesis by (rule round_pos_exact)
  qed
qed

lemma pow_1024_big: "(2::rat) ^ 53 < 2 ^ 1024"
  by (rule power_strict_increasing) simp_all

lemma rnd_zero [simp]: "rnd 0 = Fin 0"
  by (simp add: rnd_def)

lemma rnd_pos:
  "0 < x \<Longrightarrow> rnd x = (if 2 ^ 1024 \<le> round_pos x then PInf else Fin (round_pos x))"
  by (simp add: rnd_def)

lemma rnd_neg:
  "x < 0 \<Longrightarrow> rnd x = (if 2 ^ 1024 \<le> round_pos (- x) then NInf else Fin (- round_pos (- x)))"
  by (simp add: rnd_def)

lemma rnd_value:
  assumes "0 < x" and "round_pos x = r" and "r < 2 ^ 1024"
  shows "rnd x = Fin r"
  using assms by (simp add: rnd_pos)

lemma rnd_int:
  assumes "\<bar>n\<bar> \<le> 2 ^ 53"
  shows "rnd (of_int n) = Fin (of_int n)"
proof -
  have pos: "round_pos (of_int k) = of_int k \<and> (of_int k :: rat) < 2 ^ 1024"
    if "1 \<le> k" "k \<le> 2 ^ 53" for k :: int
  proof -
    from that(2) have "(of_int k :: rat) \<le> of_int (2 ^ 53)" by (simp only: of_int_le_iff)
    with pow_1024_big have "(of_int k :: rat) < 2 ^ 1024" by simp
    with round_pos_int[OF that] show ?thesis by simp
  qed
  consider "n = 0" | "1 \<le> n" | "1 \<le> - n" by linarith
  then show ?thesis
  proof cases
    case 1
    then show ?thesis by simp
  next
    case 2
    with assms have "1 \<le> n" "n \<le> 2 ^ 53" by simp_all
    from pos[OF this] 2 show ?thesis by (simp add: rnd_pos)
  next
    case 3
    with assms have "1 \<le> - n" "- n \<le> 2 ^ 53" by simp_all
    from pos[OF this] have "round_pos (- of_int n) = - of_int n" "- (of_int n :: rat) < 2 ^ 1024"
      by simp_all
    moreover from 3 have "(of_int n :: rat) < 0" by simp
    ultimately show ?thesis by (simp add: rnd_neg)
  qed
qed

lemma number_exact: "\<bar>n\<bar> \<le> 2 ^ 53 \<Longrightarrow> number n = Fin (of_int n)"
  by (simp add: number_def rnd_int)














section \<open>Auxiliary facts\<close>

lemma ids_splice_first: "ids (splice_first i ts) = remove1 i (ids ts)"
  by (induction ts) (auto simp: ids_def)

lemma set_splice_first: "set (splice_first i ts) \<subseteq> set ts"
  by (induction ts) auto

lemma splice_first_remove1:
  "distinct (ids ts) \<Longrightarrow> t \<in> set ts \<Longrightarrow> splice_first (tuple_id t) ts = remove1 t ts"
  by (induction ts) (auto simp: ids_def)

lemma find_id_None: "find (\<lambda>s. msg_id (message s) = i) ts = None \<longleftrightarrow> i \<notin> set (ids ts)"
  by (auto simp: find_None_iff ids_def tuple_id_def)

lemma set_candidates:
  "set (candidates now p) =
     {t \<in> set (messageQueue p). dueDate t < now \<and> tuple_id t \<notin> set (ids (sas p))}"
  by (auto simp: candidates_def find_id_None tuple_id_def)

lemma at_index_Some: "at_index xs i = Some x \<Longrightarrow> x \<in> set xs"
  by (auto simp: at_index_def split: if_splits)

lemma purge_loop_effect:
  "purge_loop now i p issued = (p', issued') \<Longrightarrow>
     \<exists>new. issued' = issued @ new \<and>
       p' = p\<lparr>stats := (stats p)\<lparr>itemsDeletedCalled := itemsDeletedCalled (stats p) + length new\<rparr>,
              sas := sas p @ new\<rparr> \<and>
       set new \<subseteq> set (messageQueue p) \<and>
       (\<forall>t \<in> set new. dueDate t < now) \<and>
       distinct (ids new) \<and>
       set (ids new) \<inter> set (ids (sas p)) = {} \<and>
       int (length new) \<le> max 0 (purgeCountPerRound (config p) - int i)"
proof (induction now i p issued arbitrary: p' issued' rule: purge_loop.induct)
  case (1 now i p issued)
  show ?case
  proof (cases "int i < purgeCountPerRound (config p)")
    case False
    with "1.prems" have "p' = p" "issued' = issued"
      by (simp_all add: purge_loop.simps)
    then show ?thesis by (intro exI[of _ "[]"]) (simp add: ids_def)
  next
    case True
    show ?thesis
    proof (cases "at_index (candidates now p) i")
      case None
      with True "1.prems" have "purge_loop now (Suc i) p issued = (p', issued')"
        by (simp add: purge_loop.simps)
      from "1.IH"(1)[OF True None this] obtain new where
        "issued' = issued @ new \<and>
         p' = p\<lparr>stats := (stats p)\<lparr>itemsDeletedCalled := itemsDeletedCalled (stats p) + length new\<rparr>,
              sas := sas p @ new\<rparr> \<and>
         set new \<subseteq> set (messageQueue p) \<and>
         (\<forall>t \<in> set new. dueDate t < now) \<and>
         distinct (ids new) \<and>
         set (ids new) \<inter> set (ids (sas p)) = {} \<and>
         int (length new) \<le> max 0 (purgeCountPerRound (config p) - int (Suc i))" by blast
      then show ?thesis using True by (intro exI[of _ new]) auto
    next
      case (Some t)
      define q where "q = p\<lparr>stats := (stats p)\<lparr>itemsDeletedCalled := itemsDeletedCalled (stats p) + 1\<rparr>,
                     sas := sas p @ [t]\<rparr>"
      from Some True "1.prems" have "purge_loop now (Suc i) q (issued @ [t]) = (p', issued')"
        by (simp add: purge_loop.simps q_def)
      from "1.IH"(2)[OF True Some this[unfolded q_def]] obtain new where n:
        "issued' = (issued @ [t]) @ new"
        "p' = q\<lparr>stats := (stats q)\<lparr>itemsDeletedCalled := itemsDeletedCalled (stats q) + length new\<rparr>,
              sas := sas q @ new\<rparr>"
        "set new \<subseteq> set (messageQueue q)"
        "\<forall>t \<in> set new. dueDate t < now"
        "distinct (ids new)"
        "set (ids new) \<inter> set (ids (sas q)) = {}"
        "int (length new) \<le> max 0 (purgeCountPerRound (config q) - int (Suc i))"
        unfolding q_def by blast
      from Some have tc: "t \<in> set (candidates now p)" by (rule at_index_Some)
      then have t: "t \<in> set (messageQueue p)" "dueDate t < now" "tuple_id t \<notin> set (ids (sas p))"
        by (simp_all add: set_candidates)
      show ?thesis
        using n t True by (intro exI[of _ "t # new"]) (auto simp: q_def ids_def)
    qed
  qed
qed


lemma purgeTimerWatch_backlog:
  assumes "sas p \<noteq> []"
  shows "purgeTimerWatch now p =
     (p\<lparr>config := (config p)\<lparr>purgeTimerInterval :=
          backlog_interval (purgeTimerInterval (config p)) (length (sas p))
            (purgeCountPerRound (config p))\<rparr>\<rparr>,
      [], ddiv (number (int (length (sas p)))) (number (purgeCountPerRound (config p))))"
  using assms by (simp add: purgeTimerWatch_def)

lemma purgeTimerWatch_idle:
  assumes "sas p = []"
  shows "\<exists>new. purgeTimerWatch now p =
       (p\<lparr>stats := (stats p)\<lparr>itemsDeletedCalled := itemsDeletedCalled (stats p) + length new\<rparr>,
              sas := new\<rparr>, new, purgeTimerInterval (config p)) \<and>
       set new \<subseteq> set (messageQueue p) \<and>
       (\<forall>t \<in> set new. dueDate t < now) \<and>
       distinct (ids new) \<and>
       int (length new) \<le> max 0 (purgeCountPerRound (config p))"
proof -
  obtain p' issued where l: "purge_loop now 0 p [] = (p', issued)"
    by (cases "purge_loop now 0 p []")
  from purge_loop_effect[OF l] obtain new where n:
    "issued = [] @ new"
    "p' = p\<lparr>stats := (stats p)\<lparr>itemsDeletedCalled := itemsDeletedCalled (stats p) + length new\<rparr>,
              sas := sas p @ new\<rparr>"
    "set new \<subseteq> set (messageQueue p)"
    "\<forall>t \<in> set new. dueDate t < now"
    "distinct (ids new)"
    "int (length new) \<le> max 0 (purgeCountPerRound (config p) - int 0)"
    by blast
  show ?thesis
    using assms l n by (intro exI[of _ new]) (simp add: purgeTimerWatch_def)
qed

lemma boot_consistent: "consistent (boot cfg)"
  by (simp add: consistent_def boot_def constructor_def ids_def)

lemma addMessage_queue:
  "messageQueue (addMessage p m due) =
     (if msg_id m \<in> set (ids (messageQueue p)) then messageQueue p
      else messageQueue p @ [\<lparr>dueDate = due, message = m\<rparr>])"
  by (simp add: addMessage_def find_id_None)

lemma addMessage_frame:
  "sas (addMessage p m due) = sas p" "stats (addMessage p m due) = stats p"
  "config (addMessage p m due) = config p"
  by (simp_all add: addMessage_def)

lemma getOldest_state:
  "snd (getOldestMessageInQueue p) = p\<lparr>messageQueue := sort_key dueDate (messageQueue p)\<rparr>"
  by (simp add: getOldestMessageInQueue_def Let_def)

lemma ids_sort_distinct: "distinct (ids (sort_key dueDate ts)) = distinct (ids ts)"
proof -
  have "mset (ids (sort_key dueDate ts)) = mset (ids ts)"
    by (simp add: ids_def)
  then show ?thesis by (rule mset_eq_imp_distinct_iff)
qed

lemma tick_consistent:
  assumes c: "consistent s" and st: "step s (Tick now) = Some s'"
  shows "consistent s'"
proof (cases "sas (purger s) = []")
  case True
  from purgeTimerWatch_idle[OF True, of now] obtain new where n:
    "purgeTimerWatch now (purger s) =
       ((purger s)\<lparr>stats := (stats (purger s))\<lparr>itemsDeletedCalled :=
                  itemsDeletedCalled (stats (purger s)) + length new\<rparr>,
              sas := new\<rparr>, new, purgeTimerInterval (config (purger s)))"
    "set new \<subseteq> set (messageQueue (purger s))"
    "distinct (ids new)"
    "int (length new) \<le> max 0 (purgeCountPerRound (config (purger s)))"
    by blast
  from st n(1) have s': "s' = \<lparr>purger = (purger s)\<lparr>stats := (stats (purger s))\<lparr>itemsDeletedCalled :=
                  itemsDeletedCalled (stats (purger s)) + length new\<rparr>,
              sas := new\<rparr>, promises = promises s @ new, deleteCalls = deleteCalls s @ new\<rparr>"
    by simp
  from c True n(2,3,4) show ?thesis
    unfolding s' consistent_def by auto
next
  case False
  from st purgeTimerWatch_backlog[OF False, of now] c show ?thesis
    by (auto simp: consistent_def)
qed

lemma settle_consistent:
  assumes c: "consistent s" and t: "t \<in> set (promises s)"
    and p': "purger s' = removeFromStores ((purger s)\<lparr>stats := st\<rparr>) t"
    and pr: "promises s' = remove1 t (promises s)"
    and dc: "deleteCalls s' = deleteCalls s"
    and cnt: "itemsDeletedCalled st = itemsDeletedCalled (stats (purger s))"
             "itemsDeleted st + errors st =
                Suc (itemsDeleted (stats (purger s)) + errors (stats (purger s)))"
  shows "consistent s'"
proof -
  let ?p = "purger s"
  from c t have ts: "t \<in> set (sas ?p)" and d: "distinct (ids (sas ?p))"
    and dq: "distinct (ids (messageQueue ?p))" and sub: "set (sas ?p) \<subseteq> set (messageQueue ?p)"
    by (simp_all add: consistent_def)
  have sas': "sas (purger s') = remove1 t (sas ?p)"
    by (simp add: p' removeFromStores_def splice_first_remove1[OF d ts])
  from sub ts have tq: "t \<in> set (messageQueue ?p)" by blast
  have q': "messageQueue (purger s') = remove1 t (messageQueue ?p)"
    by (simp add: p' removeFromStores_def splice_first_remove1[OF dq tq])
  have "distinct (sas ?p)" using d by (simp add: ids_def distinct_map)
  then have ssub: "set (sas (purger s')) \<subseteq> set (messageQueue (purger s'))"
    using sub dq by (auto simp: sas' q' ids_def distinct_map)
  have len: "Suc (length (sas (purger s'))) = length (sas ?p)"
    using ts by (simp add: sas' length_remove1) (cases "sas ?p", auto)
  have d': "distinct (ids (sas (purger s')))" "distinct (ids (messageQueue (purger s')))"
    using d dq by (simp_all add: p' removeFromStores_def ids_splice_first)
  have st': "stats (purger s') = st" "config (purger s') = config ?p"
    by (simp_all add: p' removeFromStores_def)
  have ne: "sas ?p \<noteq> []" using ts by auto
  show ?thesis
    unfolding consistent_def
    using c pr dc sas' ssub d' st' cnt len ne by (auto simp: consistent_def)
qed

lemma step_consistent:
  assumes c: "consistent s" and st: "step s e = Some s'"
  shows "consistent s'"
proof (cases e)
  case (Tick now)
  with c st show ?thesis by (auto intro: tick_consistent)
next
  case (Submit m due)
  with st have s': "s' = s\<lparr>purger := addMessage (purger s) m due\<rparr>" by simp
  show ?thesis using c unfolding s' consistent_def
    by (auto simp: addMessage_queue addMessage_frame ids_def tuple_id_def)
next
  case Oldest
  with st have s': "s' = s\<lparr>purger := snd (getOldestMessageInQueue (purger s))\<rparr>" by simp
  show ?thesis using c unfolding s' consistent_def
    by (auto simp: getOldest_state ids_sort_distinct)
next
  case (Deleted t)
  with st have t: "t \<in> set (promises s)"
    and s': "s' = s\<lparr>purger := on_deleted (purger s) t, promises := remove1 t (promises s)\<rparr>"
    by (auto split: if_splits)
  show ?thesis
    by (rule settle_consistent[OF c t, where st = "(stats (purger s))\<lparr>itemsDeleted := itemsDeleted (stats (purger s)) + 1\<rparr>"])
       (simp_all add: s' on_deleted_def)
next
  case (Failed t)
  with st have t: "t \<in> set (promises s)"
    and s': "s' = s\<lparr>purger := on_error (purger s) t, promises := remove1 t (promises s)\<rparr>"
    by (auto split: if_splits)
  show ?thesis
    by (rule settle_consistent[OF c t, where st = "(stats (purger s))\<lparr>errors := errors (stats (purger s)) + 1\<rparr>"])
       (simp_all add: s' on_error_def)
qed

lemma run_consistent: "consistent s \<Longrightarrow> run s es = Some s' \<Longrightarrow> consistent s'"
  by (induction es arbitrary: s) (auto split: option.splits intro: step_consistent)

lemma reachable_consistent: "run (boot cfg) es = Some s \<Longrightarrow> consistent s"
  by (rule run_consistent[OF boot_consistent])


lemma filter_id_single:
  "distinct (ids ts) \<Longrightarrow> t \<in> set ts \<Longrightarrow>
     filter (\<lambda>u. msg_id (message u) = msg_id (message t)) ts = [t]"
proof (induction ts)
  case Nil
  then show ?case by simp
next
  case (Cons a ts)
  show ?case
  proof (cases "a = t")
    case True
    with Cons.prems have "tuple_id t \<notin> tuple_id ` set ts"
      by (simp add: ids_def)
    then have "\<forall>u \<in> set ts. tuple_id u \<noteq> tuple_id t" by (metis imageI)
    then have "\<forall>u \<in> set ts. msg_id (message u) \<noteq> msg_id (message t)"
      by (simp add: tuple_id_def)
    then have "filter (\<lambda>u. msg_id (message u) = msg_id (message t)) ts = []"
      by (simp add: filter_empty_conv)
    with True show ?thesis by simp
  next
    case False
    with Cons.prems have "t \<in> set ts" "msg_id (message a) \<noteq> msg_id (message t)" "distinct (ids ts)"
      by (auto simp: ids_def tuple_id_def)
    with Cons.IH show ?thesis by simp
  qed
qed

lemma sort_key_head_min:
  assumes "sort_key dueDate q = t # rest"
  shows "t \<in> set q \<and> (\<forall>u \<in> set q. dueDate t \<le> dueDate u)"
proof -
  have "set (sort_key dueDate q) = set q" by simp
  with assms have s: "set q = insert t (set rest)" by simp
  have "sorted (map dueDate (sort_key dueDate q))" by (rule sorted_sort_key)
  with assms have "\<forall>u \<in> set rest. dueDate t \<le> dueDate u" by simp
  with s show ?thesis by auto
qed

lemma purgeTimerWatch_effect:
  assumes "purgeTimerWatch now p = (p', issued, delay)"
  shows "messageQueue p' = messageQueue p \<and> sas p' = sas p @ issued \<and>
         set issued \<subseteq> set (messageQueue p) \<and>
         (\<forall>t \<in> set issued. dueDate t < now) \<and>
         distinct (ids issued) \<and> set (ids issued) \<inter> set (ids (sas p)) = {} \<and>
         int (length issued) \<le> max 0 (purgeCountPerRound (config p)) \<and>
         purgeCountPerRound (config p') = purgeCountPerRound (config p) \<and>
         stats p' = (stats p)\<lparr>itemsDeletedCalled := itemsDeletedCalled (stats p) + length issued\<rparr>"
proof (cases "sas p = []")
  case True
  from purgeTimerWatch_idle[OF True, of now] assms True show ?thesis
    by (auto simp: ids_def)
next
  case False
  from purgeTimerWatch_backlog[OF False, of now] assms show ?thesis
    by (auto simp: ids_def)
qed

lemma step_counters_mono:
  assumes "step s e = Some s'"
  shows "itemsDeleted (stats (purger s)) \<le> itemsDeleted (stats (purger s')) \<and>
         itemsDeletedCalled (stats (purger s)) \<le> itemsDeletedCalled (stats (purger s')) \<and>
         errors (stats (purger s)) \<le> errors (stats (purger s'))"
proof (cases e)
  case (Tick now)
  with assms obtain p' issued delay where
    w: "purgeTimerWatch now (purger s) = (p', issued, delay)" and p': "purger s' = p'"
    by (cases "purgeTimerWatch now (purger s)") auto
  from purgeTimerWatch_effect[OF w] p' show ?thesis by simp
next
  case (Submit m due)
  with assms show ?thesis by (auto simp: addMessage_frame)
next
  case Oldest
  with assms show ?thesis by (auto simp: getOldest_state)
next
  case (Deleted t)
  with assms show ?thesis
    by (auto simp: on_deleted_def removeFromStores_def split: if_splits)
next
  case (Failed t)
  with assms show ?thesis
    by (auto simp: on_error_def removeFromStores_def split: if_splits)
qed

lemma example_run: "run (boot example_config) example_events = Some example_state"
  by (simp add: example_events_def example_state_def boot_def constructor_def addMessage_def
      example_config_def example_message_def purgeTimerWatch_def purge_loop.simps
      candidates_def at_index_def on_deleted_def removeFromStores_def tuple_id_def)

lemma settle_removed:
  assumes c: "consistent s" and t: "t \<in> set (promises s)"
    and p': "purger s' = removeFromStores ((purger s)\<lparr>stats := st\<rparr>) t"
    and pr: "promises s' = remove1 t (promises s)"
  shows "tuple_id t \<notin> set (ids (messageQueue (purger s'))) \<and>
         tuple_id t \<notin> set (ids (sas (purger s'))) \<and>
         t \<notin> set (promises s')"
proof -
  from c have d: "distinct (ids (sas (purger s)))" "distinct (ids (messageQueue (purger s)))"
    and ps: "promises s = sas (purger s)"
    by (simp_all add: consistent_def)
  from d(1) have "distinct (sas (purger s))" by (simp add: ids_def distinct_map)
  with ps pr have "t \<notin> set (promises s')" by simp
  moreover from d have "tuple_id t \<notin> set (ids (messageQueue (purger s')))"
    "tuple_id t \<notin> set (ids (sas (purger s')))"
    by (simp_all add: p' removeFromStores_def ids_splice_first)
  ultimately show ?thesis by simp
qed

lemma ids_addMessage:
  "set (ids (messageQueue (addMessage p m due))) = insert (msg_id m) (set (ids (messageQueue p)))"
  by (auto simp: addMessage_queue ids_def tuple_id_def)

lemma step_quiet:
  assumes a: "i \<notin> set (ids (messageQueue (purger s)))"
    and st: "step s e = Some s'" and ns: "\<not> submits_id i e"
  shows "i \<notin> set (ids (messageQueue (purger s'))) \<and>
         filter (\<lambda>u. tuple_id u = i) (deleteCalls s') = filter (\<lambda>u. tuple_id u = i) (deleteCalls s)"
proof (cases e)
  case (Tick now)
  with st obtain p' issued delay where
    w: "purgeTimerWatch now (purger s) = (p', issued, delay)"
    and s': "purger s' = p'" "deleteCalls s' = deleteCalls s @ issued"
    by (cases "purgeTimerWatch now (purger s)") auto
  from purgeTimerWatch_effect[OF w] have q: "messageQueue p' = messageQueue (purger s)"
    and sub: "set issued \<subseteq> set (messageQueue (purger s))" by simp_all
  from sub a have "\<forall>u \<in> set issued. tuple_id u \<noteq> i" by (auto simp: ids_def)
  then have "filter (\<lambda>u. tuple_id u = i) issued = []" by (simp add: filter_empty_conv)
  with a q s' show ?thesis by simp
next
  case (Submit m due)
  with st ns a show ?thesis
    by (auto simp: ids_addMessage)
next
  case Oldest
  with st a show ?thesis by (auto simp: getOldest_state ids_def)
next
  case (Deleted t)
  with st a set_splice_first[of "tuple_id t" "messageQueue (purger s)"] show ?thesis
    by (auto simp: on_deleted_def removeFromStores_def ids_def split: if_splits)
next
  case (Failed t)
  with st a set_splice_first[of "tuple_id t" "messageQueue (purger s)"] show ?thesis
    by (auto simp: on_error_def removeFromStores_def ids_def split: if_splits)
qed

lemma run_quiet:
  "i \<notin> set (ids (messageQueue (purger s))) \<Longrightarrow> run s es = Some s' \<Longrightarrow>
   \<forall>e \<in> set es. \<not> submits_id i e \<Longrightarrow>
   i \<notin> set (ids (messageQueue (purger s'))) \<and>
   filter (\<lambda>u. tuple_id u = i) (deleteCalls s') = filter (\<lambda>u. tuple_id u = i) (deleteCalls s)"
proof (induction es arbitrary: s)
  case Nil
  then show ?case by simp
next
  case (Cons e es)
  from Cons.prems(2) obtain s1 where s1: "step s e = Some s1" and r: "run s1 es = Some s'"
    by (auto split: option.splits)
  from Cons.prems(3) have ne: "\<not> submits_id i e" and nes: "\<forall>e \<in> set es. \<not> submits_id i e"
    by simp_all
  from step_quiet[OF Cons.prems(1) s1 ne] Cons.IH[OF _ r nes] show ?case by simp
qed

lemma settle_dropped:
  assumes c: "consistent s" and t: "t \<in> set (promises s)"
    and p': "purger s' = removeFromStores ((purger s)\<lparr>stats := st\<rparr>) t"
    and pr: "promises s' = remove1 t (promises s)"
    and dc: "deleteCalls s' = deleteCalls s"
  shows "tuple_id t \<notin> set (ids (messageQueue (purger s'))) \<and>
         tuple_id t \<notin> set (ids (sas (purger s'))) \<and>
         step s' (Failed t) = None \<and> step s' (Deleted t) = None \<and>
         (\<forall>es s''. run s' es = Some s'' \<and> (\<forall>e \<in> set es. \<not> submits_id (tuple_id t) e) \<longrightarrow>
            filter (\<lambda>u. tuple_id u = tuple_id t) (deleteCalls s'') =
            filter (\<lambda>u. tuple_id u = tuple_id t) (deleteCalls s))"
proof -
  from settle_removed[OF c t p' pr] have r:
    "tuple_id t \<notin> set (ids (messageQueue (purger s')))"
    "tuple_id t \<notin> set (ids (sas (purger s')))" "t \<notin> set (promises s')"
    by simp_all
  from r(3) have n: "step s' (Failed t) = None" "step s' (Deleted t) = None" by simp_all
  have "filter (\<lambda>u. tuple_id u = tuple_id t) (deleteCalls s'') =
        filter (\<lambda>u. tuple_id u = tuple_id t) (deleteCalls s)"
    if "run s' es = Some s''" "\<forall>e \<in> set es. \<not> submits_id (tuple_id t) e" for es s''
    using run_quiet[OF r(1) that] dc by simp
  with r n show ?thesis by blast
qed

lemma round_pos_half: "round_pos (1 / 2) = 1 / 2"
  by code_simp

lemma rnd_half: "rnd (1 / 2) = Fin (1 / 2)"
proof -
  have "(1 / 2 :: rat) < 2 ^ 1024" using pow_1024_big by simp
  with round_pos_half show ?thesis by (intro rnd_value) simp_all
qed

lemma example_backlog_value: "backlog_interval (Fin 10000) (Suc 0) 2 = Fin 15000"
proof -
  have n: "number 1 = Fin 1" "number 2 = Fin 2"
    using number_exact[of 1] number_exact[of 2] by simp_all
  have a: "rnd 5000 = Fin 5000" "rnd 15000 = Fin 15000"
    using rnd_int[of 5000] rnd_int[of 15000] by simp_all
  show ?thesis by (simp add: backlog_interval_def n rnd_half a)
qed

lemma example_backlog_tick: "step example_state (Tick 20) = Some example_backlog_state"
  by (simp add: example_state_def example_backlog_state_def purgeTimerWatch_def example_config_def
      example_backlog_value)

lemma getOldest_result:
  assumes "getOldestMessageInQueue p = (r, q)"
  shows "(messageQueue p = [] \<longrightarrow> r = None) \<and>
         (messageQueue p \<noteq> [] \<longrightarrow>
            (\<exists>t \<in> set (messageQueue p). r = Some (message t) \<and>
               (\<forall>u \<in> set (messageQueue p). dueDate t \<le> dueDate u))) \<and>
         set (messageQueue q) = set (messageQueue p)"
proof (cases "sort_key dueDate (messageQueue p)")
  case Nil
  then have "messageQueue p = []" by (metis length_sort length_0_conv)
  with assms show ?thesis by (auto simp: getOldestMessageInQueue_def)
next
  case (Cons t rest)
  from sort_key_head_min[OF Cons] have "t \<in> set (messageQueue p)"
    "\<forall>u \<in> set (messageQueue p). dueDate t \<le> dueDate u" by simp_all
  moreover from assms Cons have "r = Some (message t)"
    "messageQueue q = sort_key dueDate (messageQueue p)"
    by (auto simp: getOldestMessageInQueue_def Let_def)
  ultimately show ?thesis by auto
qed

lemma fetchParams_spec:
  assumes "fetchParams p = (prm, p')"
  shows "limit prm = 50 \<and>
         (messageQueue p = [] \<longrightarrow> before prm = None) \<and>
         (messageQueue p \<noteq> [] \<longrightarrow>
            (\<exists>t \<in> set (messageQueue p). before prm = Some (msg_id (message t)) \<and>
               (\<forall>u \<in> set (messageQueue p). dueDate t \<le> dueDate u))) \<and>
         set (messageQueue p') = set (messageQueue p)"
proof -
  obtain r q where g: "getOldestMessageInQueue p = (r, q)"
    by (cases "getOldestMessageInQueue p")
  note sp = getOldest_result[OF g]
  show ?thesis
  proof (cases "messageQueue p = []")
    case True
    with sp have "r = None" by simp
    with g assms sp True show ?thesis by (auto simp: fetchParams_def)
  next
    case False
    with sp obtain t where t: "t \<in> set (messageQueue p)" "r = Some (message t)"
      "\<forall>u \<in> set (messageQueue p). dueDate t \<le> dueDate u" by blast
    with g assms have "prm = \<lparr>before = Some (msg_id (message t)), limit = 50\<rparr>" "p' = q"
      by (auto simp: fetchParams_def)
    with t sp show ?thesis by auto
  qed
qed

lemma watcherTicker_requests:
  "watcherTicker cs p reqs = (reqs', err, p') \<Longrightarrow>
   \<exists>new. reqs' = reqs @ new \<and>
     (err = None \<longrightarrow> map (\<lambda>(c, prm). Chan c) new = cs) \<and>
     (\<forall>(c, prm) \<in> set new. Chan c \<in> set cs \<and> limit prm = 50 \<and>
        (messageQueue p = [] \<longrightarrow> before prm = None) \<and>
        (messageQueue p \<noteq> [] \<longrightarrow>
           (\<exists>t \<in> set (messageQueue p). before prm = Some (msg_id (message t)) \<and>
              (\<forall>u \<in> set (messageQueue p). dueDate t \<le> dueDate u))))"
proof (induction cs p reqs arbitrary: reqs' err p' rule: watcherTicker.induct)
  case (1 p reqs)
  then show ?case by simp
next
  case (2 c cs p reqs)
  obtain prm q where f: "fetchParams p = (prm, q)" by (cases "fetchParams p")
  with "2.prems" have w: "watcherTicker cs q (reqs @ [(c, prm)]) = (reqs', err, p')" by simp
  note fs = fetchParams_spec[OF f]
  then have sq: "set (messageQueue q) = set (messageQueue p)" by simp
  then have eq: "messageQueue q = [] \<longleftrightarrow> messageQueue p = []"
    by (metis set_empty)
  from "2.IH"[OF f[symmetric] w] obtain new where n:
    "reqs' = (reqs @ [(c, prm)]) @ new"
    "err = None \<longrightarrow> map (\<lambda>(c, prm). Chan c) new = cs"
    "\<forall>(c, prm) \<in> set new. Chan c \<in> set cs \<and> limit prm = 50 \<and>
        (messageQueue q = [] \<longrightarrow> before prm = None) \<and>
        (messageQueue q \<noteq> [] \<longrightarrow>
           (\<exists>t \<in> set (messageQueue q). before prm = Some (msg_id (message t)) \<and>
              (\<forall>u \<in> set (messageQueue q). dueDate t \<le> dueDate u)))"
    by blast
  show ?case
    using n fs sq eq by (intro exI[of _ "(c, prm) # new"]) auto
qed auto







lemma round_pos_at:
  assumes "0 < a" and "2 powi e \<le> a" and "a < 2 powi (e + 1)" and "- 1022 \<le> e"
  shows "round_pos a = of_int (round_half_even (a / 2 powi (e - 52))) * 2 powi (e - 52)"
proof -
  from floor_log2_unique[OF assms(1,2,3)] assms(4) have "ulp_exp a = e - 52"
    by (simp add: ulp_exp_def)
  then show ?thesis by (simp add: round_pos_def)
qed

lemma half_even_big: "round_half_even (1125899906842623875 / 128) = 8796093022207999"
  by code_simp

lemma rounded_offset_value: "round_pos 9007199254740991000 = 9007199254740990976"
  using round_pos_at[of 9007199254740991000 62] by (simp add: half_even_big)




lemma dmul_int:
  "\<bar>a * b\<bar> \<le> 2 ^ 53 \<Longrightarrow> dmul (Fin (of_int a)) (Fin (of_int b)) = Fin (of_int (a * b))"
  using rnd_int[of "a * b"] by simp

lemma dadd_int:
  "\<bar>a + b\<bar> \<le> 2 ^ 53 \<Longrightarrow> dadd (Fin (of_int a)) (Fin (of_int b)) = Fin (of_int (a + b))"
  using rnd_int[of "a + b"] by simp

lemma truthy_int:
  "truthy_or_zero (map_option (\<lambda>n. Fin (of_int n)) f) = Fin (of_int (lifetime_field f))"
  by (cases f) (simp_all add: truthy_or_zero_def lifetime_field_def)

lemma offset_int:
  assumes "\<bar>lifetime_field d\<bar> * 86400 + \<bar>lifetime_field h\<bar> * 3600 +
           \<bar>lifetime_field mi\<bar> * 60 + \<bar>lifetime_field s\<bar> \<le> 9007199254740"
  shows "getLifeTimeOffset (Some (integer_lifetime d h mi s)) = Fin (of_int (offset_ms d h mi s))"
proof -
  define D where "D = lifetime_field d"
  define H where "H = lifetime_field h"
  define M where "M = lifetime_field mi"
  define S where "S = lifetime_field s"
  note defs = D_def H_def M_def S_def
  from assms have b: "\<bar>D\<bar> * 86400 + \<bar>H\<bar> * 3600 + \<bar>M\<bar> * 60 + \<bar>S\<bar> \<le> 9007199254740"
    by (simp add: defs)
  have p: "(2::int) ^ 53 = 9007199254740992" by simp
  have d1: "dmul (Fin (of_int D)) (Fin 24) = Fin (of_int (D * 24))"
    using dmul_int[of D 24] b by (simp add: p abs_mult)
  have d2: "dmul (Fin (of_int (D * 24))) (Fin 60) = Fin (of_int (D * 24 * 60))"
    using dmul_int[of "D * 24" 60] b by (simp add: p abs_mult)
  have d3: "dmul (Fin (of_int (D * 24 * 60))) (Fin 60) = Fin (of_int (D * 86400))"
    using dmul_int[of "D * 24 * 60" 60] b by (simp add: p abs_mult)
  have s1: "dadd (Fin 0) (Fin (of_int (D * 86400))) = Fin (of_int (D * 86400))"
    using dadd_int[of 0 "D * 86400"] b by (simp add: p abs_mult)
  have h1: "dmul (Fin (of_int H)) (Fin 60) = Fin (of_int (H * 60))"
    using dmul_int[of H 60] b by (simp add: p abs_mult)
  have h2: "dmul (Fin (of_int (H * 60))) (Fin 60) = Fin (of_int (H * 3600))"
    using dmul_int[of "H * 60" 60] b by (simp add: p abs_mult)
  have s2: "dadd (Fin (of_int (D * 86400))) (Fin (of_int (H * 3600))) =
            Fin (of_int (D * 86400 + H * 3600))"
    using dadd_int[of "D * 86400" "H * 3600"] b by (simp add: p abs_mult)
  have m1: "dmul (Fin (of_int M)) (Fin 60) = Fin (of_int (M * 60))"
    using dmul_int[of M 60] b by (simp add: p abs_mult)
  have s3: "dadd (Fin (of_int (D * 86400 + H * 3600))) (Fin (of_int (M * 60))) =
            Fin (of_int (D * 86400 + H * 3600 + M * 60))"
    using dadd_int[of "D * 86400 + H * 3600" "M * 60"] b by (simp add: p abs_mult)
  have s4: "dadd (Fin (of_int (D * 86400 + H * 3600 + M * 60))) (Fin (of_int S)) =
            Fin (of_int (D * 86400 + H * 3600 + M * 60 + S))"
    using dadd_int[of "D * 86400 + H * 3600 + M * 60" S] b by (simp add: p abs_mult)
  have r: "dmul (Fin (of_int (D * 86400 + H * 3600 + M * 60 + S))) (Fin 1000) =
           Fin (of_int ((D * 86400 + H * 3600 + M * 60 + S) * 1000))"
    using dmul_int[of "D * 86400 + H * 3600 + M * 60 + S" 1000] b by (simp add: p abs_mult)
  show ?thesis
    by (simp only: getLifeTimeOffset_def Let_def integer_lifetime_def option.case
        lifetime.select_convs truthy_int defs[symmetric] d1 d2 d3 s1 h1 h2 s2 m1 s3 s4 r
        offset_ms_def)
qed


lemma offset_none: "getLifeTimeOffset None = Fin 0"
  by (simp add: getLifeTimeOffset_def truthy_or_zero_def)

lemma dueDate_for_int:
  assumes off: "lifeTimeOffset w = Fin (of_int off)"
    and created: "\<bar>createdAt m\<bar> \<le> 8640000000000000"
    and sum: "\<bar>createdAt m + off\<bar> \<le> 2 ^ 53"
  shows "dueDate_for w m =
     (if \<bar>createdAt m + off\<bar> \<le> 8640000000000000 then ValidDate (createdAt m + off)
      else InvalidDate)"
proof -
  from created have "number (createdAt m) = Fin (of_int (createdAt m))"
    by (intro number_exact) simp
  moreover from sum have "dadd (Fin (of_int (createdAt m))) (Fin (of_int off)) =
      Fin (of_int (createdAt m + off))" by (rule dadd_int)
  moreover have "(\<bar>of_int (createdAt m + off) :: rat\<bar> \<le> 8640000000000000) =
      (\<bar>createdAt m + off\<bar> \<le> 8640000000000000)"
  proof -
    have "(\<bar>of_int (createdAt m + off) :: rat\<bar> \<le> of_int 8640000000000000) =
      (\<bar>createdAt m + off\<bar> \<le> 8640000000000000)"
      by (simp only: of_int_abs[symmetric] of_int_le_iff)
    then show ?thesis by simp
  qed
  moreover have "(if 0 \<le> (of_int (createdAt m + off) :: rat) then \<lfloor>of_int (createdAt m + off) :: rat\<rfloor>
      else \<lceil>of_int (createdAt m + off) :: rat\<rceil>) = createdAt m + off"
    by (simp only: floor_of_int ceiling_of_int if_cancel)
  ultimately show ?thesis
    by (simp only: dueDate_for_def new_Date_def off double.case)
qed

section \<open>Submitting a message (claim C4)\<close>

text \<open>
  Claim C4. \<open>addMessage\<close> is idempotent per message id: in every state the program can
  reach, submitting a message whose id already has an entry \<open>t\<close> in the queue leaves
  the whole scheduler state unchanged, and the entries of the queue with that id are
  exactly \<open>t\<close>, with the due date it already carried.
\<close>

theorem addMessage_idempotent:
  assumes "run (boot cfg) evs = Some s"
    and "t \<in> set (messageQueue (purger s))"
    and "msg_id (message t) = msg_id m"
  shows "addMessage (purger s) m due = purger s \<and>
         filter (\<lambda>u. msg_id (message u) = msg_id m) (messageQueue (addMessage (purger s) m due)) = [t]"
proof -
  from assms(2,3) have "msg_id m \<in> set (ids (messageQueue (purger s)))"
    by (force simp: ids_def tuple_id_def)
  then have same: "addMessage (purger s) m due = purger s"
    by (simp add: addMessage_def find_id_None)
  from reachable_consistent[OF assms(1)] have "distinct (ids (messageQueue (purger s)))"
    by (simp add: consistent_def)
  from filter_id_single[OF this assms(2)] same assms(3) show ?thesis by simp
qed

theorem addMessage_idempotent_witness:
  "run (boot example_config) [Submit (example_message ''7'' 100) 160] =
     Some \<lparr>purger = \<lparr>config = example_config,
                      messageQueue = [\<lparr>dueDate = 160, message = example_message ''7'' 100\<rparr>],
                      sas = [], stats = \<lparr>itemsDeleted = 0, itemsDeletedCalled = 0, errors = 0\<rparr>\<rparr>,
            promises = [], deleteCalls = []\<rparr> \<and>
   messageQueue
     (addMessage
        \<lparr>config = example_config,
         messageQueue = [\<lparr>dueDate = 160, message = example_message ''7'' 100\<rparr>],
         sas = [], stats = \<lparr>itemsDeleted = 0, itemsDeletedCalled = 0, errors = 0\<rparr>\<rparr>
        (example_message ''7'' 100) 999) =
     [\<lparr>dueDate = 160, message = example_message ''7'' 100\<rparr>]"
proof -
  let ?s = "\<lparr>purger = \<lparr>config = example_config,
                      messageQueue = [\<lparr>dueDate = 160, message = example_message ''7'' 100\<rparr>],
                      sas = [], stats = \<lparr>itemsDeleted = 0, itemsDeletedCalled = 0, errors = 0\<rparr>\<rparr>,
            promises = [], deleteCalls = []\<rparr>"
  have r: "run (boot example_config) [Submit (example_message ''7'' 100) 160] = Some ?s"
    by (simp add: boot_def constructor_def addMessage_def)
  have m: "\<lparr>dueDate = 160, message = example_message ''7'' 100\<rparr> \<in> set (messageQueue (purger ?s))"
    by simp
  have i: "msg_id (message \<lparr>dueDate = 160, message = example_message ''7'' 100\<rparr>) =
           msg_id (example_message ''7'' 100)"
    by simp
  from addMessage_idempotent[OF r m i, of 999] r show ?thesis by simp
qed

section \<open>The oldest pending message (claim C10)\<close>

text \<open>
  Claim C10. \<open>getOldestMessageInQueue\<close> returns \<open>null\<close> exactly when the queue is empty,
  and otherwise the message of an entry whose due date is minimal in the queue. It
  neither adds nor removes entries (the queue keeps its multiset of entries) and leaves
  everything else alone, but it does reorder the queue itself into ascending due-date
  order.
\<close>

theorem getOldestMessageInQueue_spec:
  assumes "getOldestMessageInQueue p = (r, p')"
  shows "(r = None \<longleftrightarrow> messageQueue p = []) \<and>
         (\<forall>m. r = Some m \<longrightarrow>
            (\<exists>t \<in> set (messageQueue p). message t = m \<and>
               (\<forall>u \<in> set (messageQueue p). dueDate t \<le> dueDate u))) \<and>
         mset (messageQueue p') = mset (messageQueue p) \<and>
         sorted (map dueDate (messageQueue p')) \<and>
         p' = p\<lparr>messageQueue := sort_key dueDate (messageQueue p)\<rparr>"
proof -
  let ?q = "sort_key dueDate (messageQueue p)"
  from assms have p': "p' = p\<lparr>messageQueue := ?q\<rparr>"
    and r: "r = (case ?q of [] \<Rightarrow> None | t # _ \<Rightarrow> Some (message t))"
    by (simp_all add: getOldestMessageInQueue_def Let_def)
  have e: "?q = [] \<longleftrightarrow> messageQueue p = []"
    by (metis length_sort length_0_conv)
  have a: "r = None \<longleftrightarrow> messageQueue p = []"
    using e by (cases ?q) (simp_all add: r)
  have b: "\<exists>t \<in> set (messageQueue p). message t = m \<and>
               (\<forall>u \<in> set (messageQueue p). dueDate t \<le> dueDate u)" if "r = Some m" for m
  proof -
    from that r obtain t rest where q: "?q = t # rest" and m: "message t = m"
      by (auto split: list.splits)
    from sort_key_head_min[OF q] m show ?thesis by blast
  qed
  have c: "mset (messageQueue p') = mset (messageQueue p)" by (simp add: p')
  have d: "sorted (map dueDate (messageQueue p'))" by (simp add: p' sorted_sort_key)
  from a b c d p' show ?thesis by blast
qed

theorem getOldestMessageInQueue_spec_witness:
  "getOldestMessageInQueue
     \<lparr>config = example_config,
      messageQueue = [\<lparr>dueDate = 30, message = example_message ''9'' 3\<rparr>,
                      \<lparr>dueDate = 20, message = example_message ''8'' 2\<rparr>],
      sas = [], stats = \<lparr>itemsDeleted = 0, itemsDeletedCalled = 0, errors = 0\<rparr>\<rparr> =
   (Some (example_message ''8'' 2),
    \<lparr>config = example_config,
      messageQueue = [\<lparr>dueDate = 20, message = example_message ''8'' 2\<rparr>,
                      \<lparr>dueDate = 30, message = example_message ''9'' 3\<rparr>],
      sas = [], stats = \<lparr>itemsDeleted = 0, itemsDeletedCalled = 0, errors = 0\<rparr>\<rparr>) \<and>
   sorted (map dueDate [\<lparr>dueDate = 20, message = example_message ''8'' 2\<rparr>,
                      \<lparr>dueDate = 30, message = example_message ''9'' 3\<rparr>])"
proof -
  let ?p = "\<lparr>config = example_config,
      messageQueue = [\<lparr>dueDate = 30, message = example_message ''9'' 3\<rparr>,
                      \<lparr>dueDate = 20, message = example_message ''8'' 2\<rparr>],
      sas = [], stats = \<lparr>itemsDeleted = 0, itemsDeletedCalled = 0, errors = 0\<rparr>\<rparr>"
  let ?p' = "\<lparr>config = example_config,
      messageQueue = [\<lparr>dueDate = 20, message = example_message ''8'' 2\<rparr>,
                      \<lparr>dueDate = 30, message = example_message ''9'' 3\<rparr>],
      sas = [], stats = \<lparr>itemsDeleted = 0, itemsDeletedCalled = 0, errors = 0\<rparr>\<rparr>"
  have g: "getOldestMessageInQueue ?p = (Some (example_message ''8'' 2), ?p')"
    by (simp add: getOldestMessageInQueue_def)
  from getOldestMessageInQueue_spec[OF g] g show ?thesis by simp
qed

section \<open>Ids in flight are not selected (claim C3)\<close>

text \<open>
  Claim C3. An id that is in \<open>this.sas\<close> when a turn starts is not among the
  \<open>delete()\<close> calls of that turn, whatever the turn is; the batch loop itself, started
  from any counter, never picks it; and the id stays in \<open>this.sas\<close> through every
  turn that is not the completion callback of a delete of that id, so nothing but that
  callback makes it selectable again.
\<close>

theorem in_flight_excluded:
  assumes inflight: "i \<in> set (ids (sas (purger s)))" and st: "step s e = Some s'"
  shows "(\<exists>new. deleteCalls s' = deleteCalls s @ new \<and> i \<notin> set (ids new)) \<and>
         (\<not> settles_id i e \<longrightarrow> i \<in> set (ids (sas (purger s')))) \<and>
         (\<forall>now j acc p' acc'. purge_loop now j (purger s) acc = (p', acc') \<longrightarrow>
            (\<exists>new. acc' = acc @ new \<and> i \<notin> set (ids new)))"
proof -
  have loop: "\<exists>new. acc' = acc @ new \<and> i \<notin> set (ids new)"
    if "purge_loop now j (purger s) acc = (p', acc')" for now j acc p' acc'
    using purge_loop_effect[OF that] inflight by blast
  have turn: "(\<exists>new. deleteCalls s' = deleteCalls s @ new \<and> i \<notin> set (ids new)) \<and>
         (\<not> settles_id i e \<longrightarrow> i \<in> set (ids (sas (purger s'))))"
  proof (cases e)
    case (Tick now)
    with st obtain p' issued delay where
      w: "purgeTimerWatch now (purger s) = (p', issued, delay)"
      and s': "purger s' = p'" "deleteCalls s' = deleteCalls s @ issued"
      by (cases "purgeTimerWatch now (purger s)") auto
    from purgeTimerWatch_effect[OF w] have "sas p' = sas (purger s) @ issued"
      and "set (ids issued) \<inter> set (ids (sas (purger s))) = {}" by simp_all
    with inflight s' show ?thesis by (auto simp: ids_def)
  next
    case (Submit m due)
    with st inflight show ?thesis by (auto simp: addMessage_frame ids_def)
  next
    case Oldest
    with st inflight show ?thesis by (auto simp: getOldest_state ids_def)
  next
    case (Deleted t)
    with st have s': "sas (purger s') = splice_first (tuple_id t) (sas (purger s))"
      "deleteCalls s' = deleteCalls s"
      by (auto simp: on_deleted_def removeFromStores_def split: if_splits)
    have "i \<in> set (ids (sas (purger s')))" if "tuple_id t \<noteq> i"
      using that[symmetric] inflight by (simp add: s' ids_splice_first)
    with Deleted s' show ?thesis by (simp add: tuple_id_def ids_def)
  next
    case (Failed t)
    with st have s': "sas (purger s') = splice_first (tuple_id t) (sas (purger s))"
      "deleteCalls s' = deleteCalls s"
      by (auto simp: on_error_def removeFromStores_def split: if_splits)
    have "i \<in> set (ids (sas (purger s')))" if "tuple_id t \<noteq> i"
      using that[symmetric] inflight by (simp add: s' ids_splice_first)
    with Failed s' show ?thesis by (simp add: tuple_id_def ids_def)
  qed
  from turn loop show ?thesis by blast
qed

theorem in_flight_excluded_witness:
  "''3'' \<in> set (ids (sas (purger example_state))) \<and>
   step example_state (Tick 20) = Some example_backlog_state \<and>
   deleteCalls example_backlog_state = deleteCalls example_state \<and>
   ''3'' \<in> set (ids (sas (purger example_backlog_state)))"
proof -
  have i: "''3'' \<in> set (ids (sas (purger example_state)))"
    by (simp add: example_state_def ids_def tuple_id_def example_message_def)
  from in_flight_excluded[OF i example_backlog_tick] i example_backlog_tick show ?thesis
    by (simp add: example_backlog_state_def)
qed

section \<open>Growth of the timer interval (claim C5)\<close>




section \<open>Completion of a delete (claim C6)\<close>

text \<open>
  Claim C6, amended. For every pending delete of a tuple \<open>t\<close> in a reachable state, its
  promise can settle either way. On failure \<open>errors\<close> grows by exactly 1 and
  \<open>itemsDeleted\<close> stays; on success \<open>itemsDeleted\<close> grows by exactly 1 and \<open>errors\<close>
  stays. In both cases \<open>itemsDeletedCalled\<close> stays, the id of \<open>t\<close> is gone from the
  queue and from \<open>this.sas\<close>, and the promise cannot settle a second time. The scheduler
  does not retry: in every later run no further \<open>delete()\<close> is called for the id as long
  as no message with that id is submitted again.
\<close>

theorem completion_drops_entry:
  assumes reach: "run (boot cfg) evs = Some s" and pending: "t \<in> set (promises s)"
  shows "\<exists>sf sd. step s (Failed t) = Some sf \<and> step s (Deleted t) = Some sd \<and>
     errors (stats (purger sf)) = errors (stats (purger s)) + 1 \<and>
     itemsDeleted (stats (purger sf)) = itemsDeleted (stats (purger s)) \<and>
     itemsDeleted (stats (purger sd)) = itemsDeleted (stats (purger s)) + 1 \<and>
     errors (stats (purger sd)) = errors (stats (purger s)) \<and>
     (\<forall>s' \<in> {sf, sd}.
        itemsDeletedCalled (stats (purger s')) = itemsDeletedCalled (stats (purger s)) \<and>
        tuple_id t \<notin> set (ids (messageQueue (purger s'))) \<and>
        tuple_id t \<notin> set (ids (sas (purger s'))) \<and>
        step s' (Failed t) = None \<and> step s' (Deleted t) = None \<and>
        (\<forall>es s''. run s' es = Some s'' \<and> (\<forall>e \<in> set es. \<not> submits_id (tuple_id t) e) \<longrightarrow>
           filter (\<lambda>u. tuple_id u = tuple_id t) (deleteCalls s'') =
           filter (\<lambda>u. tuple_id u = tuple_id t) (deleteCalls s)))"
proof -
  let ?sf = "s\<lparr>purger := on_error (purger s) t, promises := remove1 t (promises s)\<rparr>"
  let ?sd = "s\<lparr>purger := on_deleted (purger s) t, promises := remove1 t (promises s)\<rparr>"
  note c = reachable_consistent[OF reach]
  from pending have f: "step s (Failed t) = Some ?sf" and d: "step s (Deleted t) = Some ?sd"
    by simp_all
  have cf: "errors (stats (purger ?sf)) = errors (stats (purger s)) + 1"
    "itemsDeleted (stats (purger ?sf)) = itemsDeleted (stats (purger s))"
    "itemsDeletedCalled (stats (purger ?sf)) = itemsDeletedCalled (stats (purger s))"
    by (simp_all add: on_error_def removeFromStores_def)
  have cd: "itemsDeleted (stats (purger ?sd)) = itemsDeleted (stats (purger s)) + 1"
    "errors (stats (purger ?sd)) = errors (stats (purger s))"
    "itemsDeletedCalled (stats (purger ?sd)) = itemsDeletedCalled (stats (purger s))"
    by (simp_all add: on_deleted_def removeFromStores_def)
  have df: "tuple_id t \<notin> set (ids (messageQueue (purger ?sf))) \<and>
         tuple_id t \<notin> set (ids (sas (purger ?sf))) \<and>
         step ?sf (Failed t) = None \<and> step ?sf (Deleted t) = None \<and>
         (\<forall>es s''. run ?sf es = Some s'' \<and> (\<forall>e \<in> set es. \<not> submits_id (tuple_id t) e) \<longrightarrow>
            filter (\<lambda>u. tuple_id u = tuple_id t) (deleteCalls s'') =
            filter (\<lambda>u. tuple_id u = tuple_id t) (deleteCalls s))"
    by (rule settle_dropped[OF c pending, where st = "(stats (purger s))\<lparr>errors := errors (stats (purger s)) + 1\<rparr>"])
       (simp_all add: on_error_def)
  have dd: "tuple_id t \<notin> set (ids (messageQueue (purger ?sd))) \<and>
         tuple_id t \<notin> set (ids (sas (purger ?sd))) \<and>
         step ?sd (Failed t) = None \<and> step ?sd (Deleted t) = None \<and>
         (\<forall>es s''. run ?sd es = Some s'' \<and> (\<forall>e \<in> set es. \<not> submits_id (tuple_id t) e) \<longrightarrow>
            filter (\<lambda>u. tuple_id u = tuple_id t) (deleteCalls s'') =
            filter (\<lambda>u. tuple_id u = tuple_id t) (deleteCalls s))"
    by (rule settle_dropped[OF c pending, where st = "(stats (purger s))\<lparr>itemsDeleted := itemsDeleted (stats (purger s)) + 1\<rparr>"])
       (simp_all add: on_deleted_def)
  have
    "itemsDeletedCalled (stats (purger s')) = itemsDeletedCalled (stats (purger s)) \<and>
        tuple_id t \<notin> set (ids (messageQueue (purger s'))) \<and>
        tuple_id t \<notin> set (ids (sas (purger s'))) \<and>
        step s' (Failed t) = None \<and> step s' (Deleted t) = None \<and>
        (\<forall>es s''. run s' es = Some s'' \<and> (\<forall>e \<in> set es. \<not> submits_id (tuple_id t) e) \<longrightarrow>
           filter (\<lambda>u. tuple_id u = tuple_id t) (deleteCalls s'') =
           filter (\<lambda>u. tuple_id u = tuple_id t) (deleteCalls s))"
    if "s' \<in> {?sf, ?sd}" for s'
  proof -
    from that consider "s' = ?sf" | "s' = ?sd" by blast
    then show ?thesis
    proof cases
      case 1
      from cf(3) df show ?thesis unfolding 1 by (rule conjI)
    next
      case 2
      from cd(3) dd show ?thesis unfolding 2 by (rule conjI)
    qed
  qed
  then have
    "\<forall>s' \<in> {?sf, ?sd}.
        itemsDeletedCalled (stats (purger s')) = itemsDeletedCalled (stats (purger s)) \<and>
        tuple_id t \<notin> set (ids (messageQueue (purger s'))) \<and>
        tuple_id t \<notin> set (ids (sas (purger s'))) \<and>
        step s' (Failed t) = None \<and> step s' (Deleted t) = None \<and>
        (\<forall>es s''. run s' es = Some s'' \<and> (\<forall>e \<in> set es. \<not> submits_id (tuple_id t) e) \<longrightarrow>
           filter (\<lambda>u. tuple_id u = tuple_id t) (deleteCalls s'') =
           filter (\<lambda>u. tuple_id u = tuple_id t) (deleteCalls s))"
    by (rule ballI)
  with f d cf(1,2) cd(1,2) show ?thesis
    by (intro exI[of _ ?sf] exI[of _ ?sd] conjI)
qed


theorem completion_drops_entry_witness:
  "run (boot example_config) example_events = Some example_state \<and>
   \<lparr>dueDate = 3, message = example_message ''3'' 3\<rparr> \<in> set (promises example_state) \<and>
   (\<exists>sf. step example_state (Failed \<lparr>dueDate = 3, message = example_message ''3'' 3\<rparr>) = Some sf \<and>
      errors (stats (purger sf)) = errors (stats (purger example_state)) + 1 \<and>
      itemsDeleted (stats (purger sf)) = itemsDeleted (stats (purger example_state)))"
proof -
  have pend: "\<lparr>dueDate = 3, message = example_message ''3'' 3\<rparr> \<in> set (promises example_state)"
    by (simp add: example_state_def)
  from completion_drops_entry[OF example_run pend] example_run pend show ?thesis
    by blast
qed

text \<open>
  Claim C6 as it was stated says that the entry is never issued for deletion again. It
  is, once the message is submitted again, as the poll of the watcher does for a message
  that is still in the channel: after a failed delete of message 1, a second submission
  and a timer turn, \<open>delete()\<close> has been called twice for it.
\<close>

theorem completion_drops_entry_counterexample:
  "run (boot example_config)
     [Submit (example_message ''1'' 1) 1, Tick 10,
      Failed \<lparr>dueDate = 1, message = example_message ''1'' 1\<rparr>,
      Submit (example_message ''1'' 1) 1, Tick 20] =
   Some \<lparr>purger =
           \<lparr>config = example_config,
            messageQueue = [\<lparr>dueDate = 1, message = example_message ''1'' 1\<rparr>],
            sas = [\<lparr>dueDate = 1, message = example_message ''1'' 1\<rparr>],
            stats = \<lparr>itemsDeleted = 0, itemsDeletedCalled = 2, errors = 1\<rparr>\<rparr>,
         promises = [\<lparr>dueDate = 1, message = example_message ''1'' 1\<rparr>],
         deleteCalls = [\<lparr>dueDate = 1, message = example_message ''1'' 1\<rparr>,
                        \<lparr>dueDate = 1, message = example_message ''1'' 1\<rparr>]\<rparr>"
  by (simp add: boot_def constructor_def addMessage_def example_config_def example_message_def
      purgeTimerWatch_def purge_loop.simps candidates_def at_index_def on_error_def
      removeFromStores_def tuple_id_def)

section \<open>The counters add up (claim C9)\<close>

text \<open>
  Claim C9. In every reachable state, so after every timer turn and every completion,
  \<open>itemsDeletedCalled = itemsDeleted + errors + |sas|\<close>; it is the number of
  \<open>delete()\<close> calls made, and the entries of \<open>this.sas\<close> are exactly the deletes still
  pending. No turn makes any of the three counters smaller.
\<close>

theorem counters_balance:
  assumes "run (boot cfg) evs = Some s"
  shows "itemsDeletedCalled (stats (purger s)) =
           itemsDeleted (stats (purger s)) + errors (stats (purger s)) + length (sas (purger s)) \<and>
         length (deleteCalls s) = itemsDeletedCalled (stats (purger s)) \<and>
         promises s = sas (purger s) \<and>
         (\<forall>e s'. step s e = Some s' \<longrightarrow>
            itemsDeleted (stats (purger s)) \<le> itemsDeleted (stats (purger s')) \<and>
            itemsDeletedCalled (stats (purger s)) \<le> itemsDeletedCalled (stats (purger s')) \<and>
            errors (stats (purger s)) \<le> errors (stats (purger s')))"
proof -
  from reachable_consistent[OF assms] have
    "itemsDeletedCalled (stats (purger s)) =
       itemsDeleted (stats (purger s)) + errors (stats (purger s)) + length (sas (purger s))"
    "length (deleteCalls s) = itemsDeletedCalled (stats (purger s))"
    "promises s = sas (purger s)"
    by (simp_all add: consistent_def)
  with step_counters_mono show ?thesis by blast
qed

theorem counters_balance_witness:
  "run (boot example_config) example_events = Some example_state \<and>
   itemsDeletedCalled (stats (purger example_state)) = 2 \<and>
   itemsDeleted (stats (purger example_state)) + errors (stats (purger example_state)) +
     length (sas (purger example_state)) = 2"
  using counters_balance[OF example_run] example_run by (simp add: example_state_def)

section \<open>The poll cursor (claim C7)\<close>

text \<open>
  Claim C7. Every fetch request that a poll tick makes goes to a monitored channel and
  has \<open>limit\<close> 50; with an empty queue it has no \<open>before\<close> cursor, and otherwise
  \<open>before\<close> is the message id of a queue entry whose due date is minimal. When the
  tick ends without an exception, every monitored channel got exactly one request, in
  order. (That the collaborator reads \<open>before\<close> as an exclusive bound is outside the
  code.)
\<close>

theorem fetch_cursor:
  assumes "watcherTicker cs p [] = (reqs, err, p')" and "(c, prm) \<in> set reqs"
  shows "Chan c \<in> set cs \<and> limit prm = 50 \<and>
         (messageQueue p = [] \<longrightarrow> before prm = None) \<and>
         (messageQueue p \<noteq> [] \<longrightarrow>
            (\<exists>t \<in> set (messageQueue p). before prm = Some (msg_id (message t)) \<and>
               (\<forall>u \<in> set (messageQueue p). dueDate t \<le> dueDate u))) \<and>
         (err = None \<longrightarrow> map (\<lambda>(c, prm). Chan c) reqs = cs)"
  using watcherTicker_requests[OF assms(1)] assms(2) by auto

theorem fetch_cursor_witness:
  "watcherTicker [Chan example_channel] (purger example_state) [] =
     ([(example_channel, \<lparr>before = Some ''2'', limit = 50\<rparr>)], None, purger example_state) \<and>
   watcherTicker [Chan example_channel] (constructor example_config) [] =
     ([(example_channel, \<lparr>before = None, limit = 50\<rparr>)], None, constructor example_config)"
proof -
  have a: "watcherTicker [Chan example_channel] (purger example_state) [] =
     ([(example_channel, \<lparr>before = Some ''2'', limit = 50\<rparr>)], None, purger example_state)"
    by (simp add: example_state_def fetchParams_def getOldestMessageInQueue_def example_message_def)
  have b: "watcherTicker [Chan example_channel] (constructor example_config) [] =
     ([(example_channel, \<lparr>before = None, limit = 50\<rparr>)], None, constructor example_config)"
    by (simp add: constructor_def fetchParams_def getOldestMessageInQueue_def)
  have m: "(example_channel, \<lparr>before = Some ''2'', limit = 50\<rparr>) \<in>
             set [(example_channel, \<lparr>before = Some ''2'', limit = 50\<rparr>)]" by simp
  from fetch_cursor[OF a m] a b show ?thesis by simp
qed

section \<open>Due dates (claim C8)\<close>

text \<open>
  Claim C8, amended. Let the lifetime fields that are set be integers with
  \<open>|days| * 86400 + |hours| * 3600 + |minutes| * 60 + |seconds| \<le> 9007199254740\<close>, so
  that the offset is computed without rounding, and let \<open>createdAt\<close> and
  \<open>createdAt + offset\<close> be time values of valid dates (at most \<open>8.64e15\<close> in size).
  Then \<open>start\<close> stores the offset
  \<open>(days * 86400 + hours * 3600 + minutes * 60 + seconds) * 1000\<close>, with 0 for a field
  that is not set, and \<open>sendToPurge\<close> submits the message with due date
  \<open>createdAt + offset\<close>, which is the due date of the entry appended for a message not
  yet queued. The push path \<open>onDiscordMessage\<close> goes through \<open>sendToPurge\<close> for a
  message of a monitored channel, and without a lifetime configuration the offset is 0.
\<close>

theorem dueDate_is_createdAt_plus_offset:
  assumes bound: "\<bar>lifetime_field d\<bar> * 86400 + \<bar>lifetime_field h\<bar> * 3600 +
                  \<bar>lifetime_field mi\<bar> * 60 + \<bar>lifetime_field s\<bar> \<le> 9007199254740"
    and created: "\<bar>createdAt m\<bar> \<le> 8640000000000000"
    and range: "\<bar>createdAt m + offset_ms d h mi s\<bar> \<le> 8640000000000000"
  shows "lifeTimeOffset (start mappings cs (Some (integer_lifetime d h mi s))) =
           Fin (of_int (offset_ms d h mi s)) \<and>
         dueDate_for (start mappings cs (Some (integer_lifetime d h mi s))) m =
           ValidDate (createdAt m + offset_ms d h mi s) \<and>
         sendToPurge (start mappings cs (Some (integer_lifetime d h mi s))) p m =
           Some (addMessage p m (createdAt m + offset_ms d h mi s)) \<and>
         (msg_id m \<notin> set (ids (messageQueue p)) \<longrightarrow>
            messageQueue (addMessage p m (createdAt m + offset_ms d h mi s)) =
              messageQueue p @
                [\<lparr>dueDate = createdAt m + offset_ms d h mi s, message = m\<rparr>]) \<and>
         (Chan (msg_channel m) \<in> set (chans (start mappings cs (Some (integer_lifetime d h mi s)))) \<longrightarrow>
            onDiscordMessage (start mappings cs (Some (integer_lifetime d h mi s))) p m =
              sendToPurge (start mappings cs (Some (integer_lifetime d h mi s))) p m) \<and>
         lifeTimeOffset (start mappings cs None) = Fin 0"
proof -
  let ?w = "start mappings cs (Some (integer_lifetime d h mi s))"
  let ?due = "createdAt m + offset_ms d h mi s"
  have off: "lifeTimeOffset ?w = Fin (of_int (offset_ms d h mi s))"
    by (simp add: start_def offset_int[OF bound])
  from range have sum: "\<bar>?due\<bar> \<le> 2 ^ 53" by simp
  from dueDate_for_int[OF off created sum] range
  have due: "dueDate_for ?w m = ValidDate ?due" by simp
  then have send: "sendToPurge ?w p m = Some (addMessage p m ?due)"
    by (simp add: sendToPurge_def)
  have fresh: "messageQueue (addMessage p m ?due) =
      messageQueue p @ [\<lparr>dueDate = ?due, message = m\<rparr>]"
    if "msg_id m \<notin> set (ids (messageQueue p))"
    using that by (simp add: addMessage_queue)
  have push: "onDiscordMessage ?w p m = sendToPurge ?w p m"
    if "Chan (msg_channel m) \<in> set (chans ?w)"
    using that by (auto simp: onDiscordMessage_def find_None_iff)
  have none: "lifeTimeOffset (start mappings cs None) = Fin 0"
    by (simp add: start_def offset_none)
  from off due send fresh push none show ?thesis by blast
qed

theorem dueDate_is_createdAt_plus_offset_witness:
  "\<bar>lifetime_field (Some 2)\<bar> * 86400 + \<bar>lifetime_field (Some 3)\<bar> * 3600 +
     \<bar>lifetime_field (Some 1)\<bar> * 60 + \<bar>lifetime_field None\<bar> \<le> 9007199254740 \<and>
   \<bar>createdAt (example_message ''6'' 500)\<bar> \<le> 8640000000000000 \<and>
   \<bar>createdAt (example_message ''6'' 500) + offset_ms (Some 2) (Some 3) (Some 1) None\<bar>
     \<le> 8640000000000000 \<and>
   offset_ms (Some 2) (Some 3) (Some 1) None = 183660000 \<and>
   sendToPurge
     (start [''#general''] [example_channel] (Some (integer_lifetime (Some 2) (Some 3) (Some 1) None)))
     (constructor example_config) (example_message ''6'' 500) =
   Some ((constructor example_config)
           \<lparr>messageQueue := [\<lparr>dueDate = 183660500, message = example_message ''6'' 500\<rparr>]\<rparr>)"
proof -
  have o: "offset_ms (Some 2) (Some 3) (Some 1) None = 183660000"
    by (simp add: offset_ms_def lifetime_field_def)
  have b: "\<bar>lifetime_field (Some 2)\<bar> * 86400 + \<bar>lifetime_field (Some 3)\<bar> * 3600 +
     \<bar>lifetime_field (Some 1)\<bar> * 60 + \<bar>lifetime_field None\<bar> \<le> 9007199254740"
    by (simp add: lifetime_field_def)
  have c: "\<bar>createdAt (example_message ''6'' 500)\<bar> \<le> 8640000000000000"
    by (simp add: example_message_def)
  have r: "\<bar>createdAt (example_message ''6'' 500) + offset_ms (Some 2) (Some 3) (Some 1) None\<bar>
     \<le> 8640000000000000"
    by (simp add: o example_message_def)
  from dueDate_is_createdAt_plus_offset[OF b c r, of "[''#general'']" "[example_channel]"
      "constructor example_config"]
  have "sendToPurge
     (start [''#general''] [example_channel] (Some (integer_lifetime (Some 2) (Some 3) (Some 1) None)))
     (constructor example_config) (example_message ''6'' 500) =
     Some (addMessage (constructor example_config) (example_message ''6'' 500)
            (createdAt (example_message ''6'' 500) + offset_ms (Some 2) (Some 3) (Some 1) None))"
    by blast
  then have "sendToPurge
     (start [''#general''] [example_channel] (Some (integer_lifetime (Some 2) (Some 3) (Some 1) None)))
     (constructor example_config) (example_message ''6'' 500) =
     Some ((constructor example_config)
           \<lparr>messageQueue := [\<lparr>dueDate = 183660500, message = example_message ''6'' 500\<rparr>]\<rparr>)"
    by (simp add: o addMessage_def constructor_def example_message_def)
  with b c r o show ?thesis by blast
qed

text \<open>
  Claim C8 as it was stated fails outside these ranges. With a lifetime of 100000000
  days and a message created at time 1 the date built is an invalid date, not
  \<open>createdAt + offset\<close>; and with a lifetime of \<open>2^53 - 1\<close> seconds the offset is
  rounded to 9007199254740990976 milliseconds.
\<close>

theorem dueDate_is_createdAt_plus_offset_counterexample:
  "dueDate_for (start [] [] (Some (integer_lifetime (Some 100000000) None None None)))
     (example_message ''6'' 1) = InvalidDate \<and>
   sendToPurge (start [] [] (Some (integer_lifetime (Some 100000000) None None None)))
     (constructor example_config) (example_message ''6'' 1) = None \<and>
   createdAt (example_message ''6'' 1) + offset_ms (Some 100000000) None None None =
     8640000000000001 \<and>
   getLifeTimeOffset (Some (integer_lifetime None None None (Some 9007199254740991))) =
     Fin 9007199254740990976 \<and>
   offset_ms None None None (Some 9007199254740991) = 9007199254740991000"
proof -
  let ?w = "start [] [] (Some (integer_lifetime (Some 100000000) None None None))"
  have o: "offset_ms (Some 100000000) None None None = 8640000000000000"
    by (simp add: offset_ms_def lifetime_field_def)
  have "getLifeTimeOffset (Some (integer_lifetime (Some 100000000) None None None)) =
      Fin (of_int (offset_ms (Some 100000000) None None None))"
    by (rule offset_int) (simp add: lifetime_field_def)
  then have off: "lifeTimeOffset ?w = Fin (of_int 8640000000000000)"
    by (simp add: start_def o)
  have "dueDate_for ?w (example_message ''6'' 1) =
     (if \<bar>createdAt (example_message ''6'' 1) + 8640000000000000\<bar> \<le> 8640000000000000
      then ValidDate (createdAt (example_message ''6'' 1) + 8640000000000000) else InvalidDate)"
    by (rule dueDate_for_int[OF off]) (simp_all add: example_message_def)
  then have due: "dueDate_for ?w (example_message ''6'' 1) = InvalidDate"
    by (simp add: example_message_def)
  then have send: "sendToPurge ?w (constructor example_config) (example_message ''6'' 1) = None"
    by (simp add: sendToPurge_def)
  have sum: "createdAt (example_message ''6'' 1) + offset_ms (Some 100000000) None None None =
     8640000000000001"
    by (simp add: o example_message_def)
  have big: "rnd 9007199254740991000 = Fin 9007199254740990976"
  proof (rule rnd_value[OF _ rounded_offset_value])
    have "(9007199254740990976::rat) \<le> 2 ^ 64" by simp
    also have "(2::rat) ^ 64 < 2 ^ 1024" by (rule power_strict_increasing) simp_all
    finally show "(9007199254740990976::rat) < 2 ^ 1024" .
  qed simp
  have i: "rnd 9007199254740991 = Fin 9007199254740991"
    using rnd_int[of 9007199254740991] by simp
  have rounded: "getLifeTimeOffset (Some (integer_lifetime None None None (Some 9007199254740991))) =
     Fin 9007199254740990976"
    by (simp add: getLifeTimeOffset_def integer_lifetime_def truthy_or_zero_def i big)
  have o2: "offset_ms None None None (Some 9007199254740991) = 9007199254740991000"
    by (simp add: offset_ms_def lifetime_field_def)
  from due send sum rounded o2 show ?thesis by blast
qed

section \<open>The batch of a timer turn (claim C1)\<close>

text \<open>
  Claim C1 says that with three past-due entries of due dates \<open>1 < 2 < 3\<close>, nothing in
  flight and \<open>purgeCountPerRound = 2\<close>, one timer turn selects the entries due at 1 and
  2. The code selects those due at 1 and 3: each round filters the queue against
  \<open>this.sas\<close> again, which by then holds the tuple picked in the round before, and
  reads index \<open>i\<close> of the shortened list. The comment above the loop says it processes
  the first \<open>purgeCountPerRound\<close> elements by due date.
\<close>

theorem batch_skips_second_earliest:
  "run (boot example_config)
     [Submit (example_message ''1'' 1) 1, Submit (example_message ''2'' 2) 2,
      Submit (example_message ''3'' 3) 3, Tick 10] =
   Some \<lparr>purger =
           \<lparr>config = example_config,
            messageQueue =
              [\<lparr>dueDate = 1, message = example_message ''1'' 1\<rparr>,
               \<lparr>dueDate = 2, message = example_message ''2'' 2\<rparr>,
               \<lparr>dueDate = 3, message = example_message ''3'' 3\<rparr>],
            sas = [\<lparr>dueDate = 1, message = example_message ''1'' 1\<rparr>,
                   \<lparr>dueDate = 3, message = example_message ''3'' 3\<rparr>],
            stats = \<lparr>itemsDeleted = 0, itemsDeletedCalled = 2, errors = 0\<rparr>\<rparr>,
         promises = [\<lparr>dueDate = 1, message = example_message ''1'' 1\<rparr>,
                     \<lparr>dueDate = 3, message = example_message ''3'' 3\<rparr>],
         deleteCalls = [\<lparr>dueDate = 1, message = example_message ''1'' 1\<rparr>,
                        \<lparr>dueDate = 3, message = example_message ''3'' 3\<rparr>]\<rparr>"
  by (simp add: boot_def constructor_def addMessage_def
      example_config_def example_message_def purgeTimerWatch_def purge_loop.simps
      candidates_def at_index_def)

section \<open>Channels that do not resolve (claim C2)\<close>

text \<open>
  Claim C2 says that a configured channel reference that does not resolve is left out of
  the monitored set. A name that does not resolve yields \<open>null\<close> and is filtered out,
  but an id that does not resolve yields \<open>undefined\<close>, which passes the test
  \<open>c !== null\<close> and stays in \<open>this.chans\<close>; the next poll tick then throws a
  \<open>TypeError\<close> before any fetch, also before the fetch for the channel that did
  resolve.
\<close>

theorem unresolved_id_kept:
  "chans (start [''#nope'', ''1234'', ''#general''] [example_channel] None) =
     [JSUndefined, Chan example_channel] \<and>
   watcherTicker (chans (start [''#nope'', ''1234'', ''#general''] [example_channel] None))
     (constructor example_config) [] =
     ([], Some TypeError, constructor example_config)"
  by (simp add: start_def lookup_channel_def startsWith_hash_def collection_find_name_def
      collection_get_def example_channel_def)

end
